theory Spec2Isabelle
  imports Main
begin

section \<open>The dice-notation interpreter of \<^verbatim>\<open>modules/dice/dice.py\<close>\<close>

text \<open>
  A shallow embedding of the five dice items (\<^verbatim>\<open>Dice\<close>, \<^verbatim>\<open>FudgeDice\<close>,
  \<^verbatim>\<open>BonusPunishDice\<close>, \<^verbatim>\<open>WODDice\<close>, \<^verbatim>\<open>DXDice\<close>), of their constructors
  and of their \<^verbatim>\<open>roll\<close> methods. Python integers are \<open>int\<close>, strings are
  \<open>string\<close> (the notation is ASCII), exceptions are values of the type \<open>error\<close>,
  and the random source is an explicit state.
\<close>

subsection \<open>Exceptions\<close>

datatype error =
    DiceSyntaxError string
  | DiceValueError string
  | IndexError
  | UnboundLocalError
  | ValueError
  | OverflowError

fun ebind :: "error + 'a \<Rightarrow> ('a \<Rightarrow> error + 'b) \<Rightarrow> error + 'b" where
  "ebind (Inl e) f = Inl e"
| "ebind (Inr x) f = f x"

subsection \<open>Python's string primitives\<close>

definition digit_char :: "nat \<Rightarrow> char" where
  "digit_char d = ''0123456789'' ! (d mod 10)"

text \<open>\<^verbatim>\<open>str(n)\<close> for a non-negative integer: the decimal digits, most significant first.\<close>

fun str_nat :: "nat \<Rightarrow> string" where
  "str_nat n = (if n < 10 then [digit_char n] else str_nat (n div 10) @ [digit_char (n mod 10)])"

declare str_nat.simps [simp del]

text \<open>\<^verbatim>\<open>str(n)\<close> for an integer.\<close>

definition str_int :: "int \<Rightarrow> string" where
  "str_int n = (if n < 0 then CHR ''-'' # str_nat (nat (- n)) else str_nat (nat n))"

definition is_digit :: "char \<Rightarrow> bool" where
  "is_digit c = (c \<in> set ''0123456789'')"

definition digit_val :: "char \<Rightarrow> nat" where
  "digit_val c = (of_char c - 48)"

definition nat_of_digits :: "string \<Rightarrow> nat" where
  "nat_of_digits s = foldl (\<lambda>acc c. 10 * acc + digit_val c) 0 s"

text \<open>
  \<^verbatim>\<open>int(s)\<close> on a string: an optional sign followed by one or more decimal digits;
  anything else raises \<^verbatim>\<open>ValueError\<close> (\<open>None\<close>). Surrounding white space and
  underscores between digits, which Python also accepts, cannot occur in the strings the
  interpreter passes: they are built from digits, the letters of the grammar and the
  output of \<^verbatim>\<open>str\<close>. The conversion is the unbounded one: the limit of 4300 digits
  that CPython 3.11 and later put on \<^verbatim>\<open>int(s)\<close> and \<^verbatim>\<open>str(n)\<close> (a setting of the
  interpreter, \<^verbatim>\<open>sys.set_int_max_str_digits\<close>) is not modelled.
\<close>

definition py_int :: "string \<Rightarrow> int option" where
  "py_int s =
     (case s of
        [] \<Rightarrow> None
      | c # r \<Rightarrow>
          if c = CHR ''-'' then
            (if r \<noteq> [] \<and> list_all is_digit r then Some (- int (nat_of_digits r)) else None)
          else if c = CHR ''+'' then
            (if r \<noteq> [] \<and> list_all is_digit r then Some (int (nat_of_digits r)) else None)
          else if list_all is_digit s then Some (int (nat_of_digits s)) else None)"

text \<open>
  Modelled from the spec: the function \<^verbatim>\<open>isint\<close> (\<^verbatim>\<open>core.utils.message\<close>) is not among
  the sources. A numeric component of a notation either parses as an integer or
  raises a value error: \<^verbatim>\<open>isint(s)\<close> holds when \<^verbatim>\<open>int(s)\<close> does not raise.
\<close>

definition isint :: "string \<Rightarrow> bool" where
  "isint s = (py_int s \<noteq> None)"

definition upper_char :: "char \<Rightarrow> char" where
  "upper_char c =
     (case map_of (zip ''abcdefghijklmnopqrstuvwxyz'' ''ABCDEFGHIJKLMNOPQRSTUVWXYZ'') c of
        Some u \<Rightarrow> u
      | None \<Rightarrow> c)"

text \<open>\<^verbatim>\<open>s.upper()\<close> on an ASCII string.\<close>

definition upper :: "string \<Rightarrow> string" where
  "upper s = map upper_char s"

text \<open>\<^verbatim>\<open>s.replace(old, new)\<close> for a non-empty \<open>old\<close>: every occurrence, left to right.\<close>

function replace :: "string \<Rightarrow> string \<Rightarrow> string \<Rightarrow> string" where
  "replace old new s =
     (if s = [] then []
      else if old \<noteq> [] \<and> take (length old) s = old
        then new @ replace old new (drop (length old) s)
        else hd s # replace old new (tl s))"
  by pat_completeness auto
termination
  by (relation "measure (\<lambda>(old, new, s). length s)") auto

declare replace.simps [simp del]

text \<open>\<^verbatim>\<open>s.split(sep)\<close> for a one-character separator: at least one piece.\<close>

fun split :: "char \<Rightarrow> string \<Rightarrow> string list" where
  "split sep [] = [[]]"
| "split sep (c # cs) =
     (if c = sep then [] # split sep cs
      else (case split sep cs of
              [] \<Rightarrow> [[c]]
            | p # ps \<Rightarrow> (c # p) # ps))"

text \<open>
  \<^verbatim>\<open>s.partition(sep)\<close>: the text before the first separator and the text after it
  (the interpreter calls it only when the separator occurs).
\<close>

definition partition_before :: "char \<Rightarrow> string \<Rightarrow> string" where
  "partition_before sep s = takeWhile (\<lambda>c. c \<noteq> sep) s"

definition partition_after :: "char \<Rightarrow> string \<Rightarrow> string" where
  "partition_after sep s = drop 1 (dropWhile (\<lambda>c. c \<noteq> sep) s)"

text \<open>\<^verbatim>\<open>re.search(r"[^...]", s)\<close>: some character outside the alphabet.\<close>

definition has_illegal :: "string \<Rightarrow> string \<Rightarrow> bool" where
  "has_illegal alphabet s = list_ex (\<lambda>c. c \<notin> set alphabet) s"

text \<open>\<^verbatim>\<open>xs[k:]\<close> and \<^verbatim>\<open>xs[:k]\<close>, where a negative \<open>k\<close> counts from the end.\<close>

definition slice_from :: "int \<Rightarrow> 'a list \<Rightarrow> 'a list" where
  "slice_from k xs = (if k < 0 then drop (nat (int (length xs) + k)) xs else drop (nat k) xs)"

definition slice_to :: "int \<Rightarrow> 'a list \<Rightarrow> 'a list" where
  "slice_to k xs = (if k < 0 then take (nat (int (length xs) + k)) xs else take (nat k) xs)"

text \<open>\<^verbatim>\<open>max(xs)\<close> and \<^verbatim>\<open>min(xs)\<close>: \<^verbatim>\<open>ValueError\<close> on the empty list.\<close>

definition py_max :: "int list \<Rightarrow> error + int" where
  "py_max xs = (case xs of [] \<Rightarrow> Inl ValueError | x # r \<Rightarrow> Inr (fold max r x))"

definition py_min :: "int list \<Rightarrow> error + int" where
  "py_min xs = (case xs of [] \<Rightarrow> Inl ValueError | x # r \<Rightarrow> Inr (fold min r x))"


subsection \<open>Configuration\<close>

text \<open>
  The four \<^verbatim>\<open>Config(...)\<close> values of the module (\<^verbatim>\<open>MAX_DICE_COUNT\<close>,
  \<^verbatim>\<open>MAX_OUTPUT_CNT\<close>, \<^verbatim>\<open>MAX_OUTPUT_LEN\<close>, \<^verbatim>\<open>MAX_OUTPUT_EXP\<close>), read once and
  passed to every operation.
\<close>

record config =
  MAX_DICE_COUNT :: int
  MAX_OUTPUT_CNT :: int
  MAX_OUTPUT_LEN :: int
  MAX_OUTPUT_EXP :: int

definition default_config :: config where
  "default_config =
     \<lparr>MAX_DICE_COUNT = 100, MAX_OUTPUT_CNT = 50, MAX_OUTPUT_LEN = 200, MAX_OUTPUT_EXP = 9\<rparr>"

subsection \<open>Message identifiers\<close>

text \<open>
  Modelled from the spec: the class \<^verbatim>\<open>I18NContext\<close> (\<^verbatim>\<open>core.builtins\<close>) is not among
  the sources. The interpreter returns message identifiers with interpolation values,
  not final text: \<^verbatim>\<open>str(I18NContext(key, k=v))\<close> is the identifier in braces followed
  by its \<open>k=v\<close> pairs, the form the module itself writes for identifiers without values
  (\<^verbatim>\<open>"{I18N:dice.message.too_long}"\<close>).
\<close>

definition I18NContext :: "string \<Rightarrow> (string \<times> string) list \<Rightarrow> string" where
  "I18NContext key kwargs =
     ''{I18N:'' @ key @ concat (map (\<lambda>(k, v). '','' @ k @ ''='' @ v) kwargs) @ ''}''"

text \<open>The placeholder of an itemized bracket that is not shown; it carries the count.\<close>

definition output_too_long :: "int \<Rightarrow> string" where
  "output_too_long n =
     ''=['' @ I18NContext ''dice.message.output.too_long'' [(''length'', str_int n)] @ '']''"

text \<open>The second argument of \<^verbatim>\<open>DiceValueError\<close>: an integer, a string or nothing.\<close>

datatype pyval = PInt int | PStr string | PNone

fun truthy :: "pyval \<Rightarrow> bool" where
  "truthy (PInt n) = (n \<noteq> 0)"
| "truthy (PStr s) = (s \<noteq> [])"
| "truthy PNone = False"

fun str_pyval :: "pyval \<Rightarrow> string" where
  "str_pyval (PInt n) = str_int n"
| "str_pyval (PStr s) = s"
| "str_pyval PNone = ''None''"

text \<open>\<^verbatim>\<open>DiceValueError.__init__\<close>: the value, when truthy, is put in front of the message.\<close>

definition DiceValueError_init :: "string \<Rightarrow> pyval \<Rightarrow> error" where
  "DiceValueError_init message v =
     (if truthy v
      then DiceValueError
             (I18NContext ''dice.message.error.value'' [(''value'', str_pyval v)] @ message)
      else DiceValueError message)"

subsection \<open>The numeric formatter\<close>

text \<open>
  \<^verbatim>\<open>f"{num:.{p}e}"\<close> on a Python integer converts it to a float and prints the float
  in exponent notation with \<open>p\<close> digits after the point. Both steps are exact
  integer computations here: the conversion rounds to 53 significant bits, ties to
  even, and raises \<^verbatim>\<open>OverflowError\<close> when the rounded value does not fit a double;
  the printing rounds the exact value of the float to \<open>p + 1\<close> significant decimal
  digits, ties to even.
\<close>

fun bit_length :: "nat \<Rightarrow> nat" where
  "bit_length n = (if n = 0 then 0 else Suc (bit_length (n div 2)))"

declare bit_length.simps [simp del]

text \<open>\<open>a / b\<close> rounded to the nearest integer, ties to even (\<open>b > 0\<close>).\<close>

definition round_half_even :: "nat \<Rightarrow> nat \<Rightarrow> nat" where
  "round_half_even a b =
     (let q = a div b; r = a mod b
      in if b < 2 * r \<or> (2 * r = b \<and> odd q) then q + 1 else q)"

text \<open>\<^verbatim>\<open>float(n)\<close>: the value of the double, which is an integer again.\<close>

definition float_of_int :: "int \<Rightarrow> error + int" where
  "float_of_int n =
     (let a = nat \<bar>n\<bar>; bl = bit_length a
      in if bl \<le> 53 then Inr n
         else let k = bl - 53; v = round_half_even a (2 ^ k) * 2 ^ k
              in if 2 ^ 1024 \<le> v then Inl OverflowError else Inr (sgn n * int v))"

text \<open>
  \<^verbatim>\<open>"%.{p}e"\<close> on a float whose value is the integer \<open>x\<close>, \<open>\<bar>x\<bar> \<ge> 1\<close>: sign, one
  digit, the point and \<open>p\<close> digits (no point when \<open>p = 0\<close>), and the exponent with its
  sign and at least two digits. \<open>sci_round\<close> gives the \<open>p + 1\<close> digits as a number and
  the exponent.
\<close>

definition sci_round :: "nat \<Rightarrow> nat \<Rightarrow> nat \<times> nat" where
  "sci_round p a =
     (let e0 = length (str_nat a) - 1;
          m0 = (if p \<le> e0 then round_half_even a (10 ^ (e0 - p)) else a * 10 ^ (p - e0))
      in if 10 ^ (p + 1) \<le> m0 then (m0 div 10, e0 + 1) else (m0, e0))"

definition format_e :: "nat \<Rightarrow> int \<Rightarrow> string" where
  "format_e p x =
     (case sci_round p (nat \<bar>x\<bar>) of
        (m, e) \<Rightarrow>
          (if x < 0 then ''-'' else []) @ take 1 (str_nat m)
            @ (if p = 0 then [] else CHR ''.'' # drop 1 (str_nat m))
            @ ''e+'' @ (if e < 10 then ''0'' else []) @ str_nat e)"

text \<open>\<^verbatim>\<open>fmt_num(num, sep)\<close>.\<close>

definition fmt_num :: "config \<Rightarrow> int \<Rightarrow> bool \<Rightarrow> error + string" where
  "fmt_num cfg num sep =
     (if MAX_OUTPUT_EXP cfg > 0 \<and> \<bar>num\<bar> \<ge> 10 ^ nat (MAX_OUTPUT_EXP cfg)
      then ebind (float_of_int num) (\<lambda>x.
             let fmt = format_e (nat (MAX_OUTPUT_EXP cfg)) x
             in Inr (if \<not> sep then ''('' @ fmt @ '')'' else fmt))
      else Inr (str_int num))"

subsection \<open>The random source\<close>

text \<open>
  Modelled from the spec: the class \<^verbatim>\<open>Random\<close> (\<^verbatim>\<open>core.utils.random\<close>) is not among
  the sources. The caller supplies a replayable source: a sequence of values
  (\<open>feed\<close>) handed out in order, \<open>consumed\<close> counting the draws made so far.
  \<^verbatim>\<open>randint(a, b)\<close> hands out the next value; that it lies in \<open>[a, b]\<close> is the
  contract of the source, a hypothesis where it matters. \<^verbatim>\<open>choice(seq)\<close> hands out
  the element of \<open>seq\<close> at the next value, taken modulo the length.
\<close>

record rng =
  feed :: "nat \<Rightarrow> int"
  consumed :: nat

definition randint :: "int \<Rightarrow> int \<Rightarrow> rng \<Rightarrow> int \<times> rng" where
  "randint a b g = (feed g (consumed g), g\<lparr>consumed := Suc (consumed g)\<rparr>)"

definition choice :: "'a list \<Rightarrow> rng \<Rightarrow> 'a \<times> rng" where
  "choice seq g =
     (seq ! nat (feed g (consumed g) mod int (length seq)),
      g\<lparr>consumed := Suc (consumed g)\<rparr>)"

text \<open>\<open>n\<close> successive calls of \<^verbatim>\<open>randint(a, b)\<close>, the results in order.\<close>

fun randints :: "nat \<Rightarrow> int \<Rightarrow> int \<Rightarrow> rng \<Rightarrow> int list \<times> rng" where
  "randints 0 a b g = ([], g)"
| "randints (Suc n) a b g =
     (let (x, g1) = randint a b g; (xs, g2) = randints n a b g1 in (x # xs, g2))"

text \<open>A source that replays the list \<open>xs\<close> and then repeats \<open>d\<close>.\<close>

definition replay :: "int list \<Rightarrow> int \<Rightarrow> rng" where
  "replay xs d = \<lparr>feed = (\<lambda>i. if i < length xs then xs ! i else d), consumed = 0\<rparr>"

subsection \<open>The dice items and their constructors\<close>

text \<open>
  \<^verbatim>\<open>DiceItemBase\<close>: the notation and the two fields that \<^verbatim>\<open>roll\<close> fills in. Each
  class extends it with its validated parameters (a field that several classes have
  carries the initial of its class: \<open>fcount\<close>, \<open>bcount\<close>, \<open>wcount\<close>, \<open>xcount\<close>, for
  record fields are global names). A constructor is
  \<^verbatim>\<open>get_args\<close> followed by the range checks of \<^verbatim>\<open>__init__\<close>; it returns the
  object or the exception raised. No constructor takes the random source.
\<close>

record DiceItemBase =
  code :: string
  result :: int
  detail :: string

record Dice = DiceItemBase +
  count :: int
  sides :: int
  adv :: int
  positive :: int

record FudgeDice = DiceItemBase +
  fcount :: int

record BonusPunishDice = DiceItemBase +
  bcount :: int
  bpositive :: bool

record WODDice = DiceItemBase +
  wcount :: int
  wadd_line :: int
  success_line :: int
  success_line_max :: int
  wsides :: int

record DXDice = DiceItemBase +
  xcount :: int
  xadd_line :: int
  xsides :: int

abbreviation invalid :: error where
  "invalid \<equiv> DiceSyntaxError ''{I18N:dice.message.error.invalid}''"

definition count_out_of_range :: "config \<Rightarrow> int \<Rightarrow> error" where
  "count_out_of_range cfg n =
     DiceValueError_init
       (I18NContext ''dice.message.error.value.count.out_of_range''
          [(''max'', str_int (MAX_DICE_COUNT cfg))])
       (PInt n)"

definition add_line_out_of_range :: "int \<Rightarrow> int \<Rightarrow> error" where
  "add_line_out_of_range sides_max n =
     DiceValueError_init
       (I18NContext ''dice.message.error.value.add_line.out_of_range''
          [(''max'', str_int sides_max)])
       (PInt n)"

text \<open>
  \<^verbatim>\<open>int(s)\<close> after \<^verbatim>\<open>isint(s)\<close> has been tested: the error is the one the source
  raises when the test fails.
\<close>

definition checked_int :: "string \<Rightarrow> string \<Rightarrow> error + int" where
  "checked_int message s =
     (if \<not> isint s then Inl (DiceValueError_init message (PStr s))
      else (case py_int s of None \<Rightarrow> Inl ValueError | Some n \<Rightarrow> Inr n))"

subsubsection \<open>\<^verbatim>\<open>Dice\<close>\<close>

definition Dice_get_args :: "string \<Rightarrow> error + (int \<times> int \<times> int \<times> int)" where
  "Dice_get_args dice_code0 =
     (let dice_code = upper dice_code0;
          dice_code = replace ''D%'' ''D100'' dice_code
      in if has_illegal ''0123456789DKQ%'' dice_code then Inl invalid
         else
           let temp = split CHR ''D'' dice_code;
               dice_count = (if take 1 temp \<noteq> [[]] then concat (take 1 temp) else ''1'')
           in (case drop 1 temp of
                 [] \<Rightarrow> Inl IndexError
               | temp1 # _ \<Rightarrow>
                   let dice_sides =
                         (if CHR ''K'' \<in> set temp1 then partition_before CHR ''K'' temp1
                          else if CHR ''Q'' \<in> set temp1 then partition_before CHR ''Q'' temp1
                          else temp1);
                       dice_adv =
                         (if CHR ''K'' \<in> set temp1 then partition_after CHR ''K'' temp1
                          else if CHR ''Q'' \<in> set temp1 then partition_after CHR ''Q'' temp1
                          else ''0'');
                       positive =
                         (if CHR ''K'' \<in> set temp1 then 1
                          else if CHR ''Q'' \<in> set temp1 then - 1
                          else (0 :: int));
                       dice_adv = (if positive \<noteq> 0 \<and> dice_adv = [] then ''1'' else dice_adv)
                   in ebind (checked_int ''{I18N:dice.message.error.value.count.invalid}'' dice_count)
                        (\<lambda>c. ebind (checked_int ''{I18N:dice.message.error.value.sides.invalid}'' dice_sides)
                        (\<lambda>s. ebind (checked_int ''{I18N:dice.message.error.value.advantage.invalid}'' dice_adv)
                        (\<lambda>a. Inr (c, s, a, positive))))))"

definition Dice_init :: "config \<Rightarrow> string \<Rightarrow> error + Dice" where
  "Dice_init cfg dice_code =
     ebind (Dice_get_args dice_code) (\<lambda>(c, s, a, p).
       if c < 1 \<or> c > MAX_DICE_COUNT cfg then Inl (count_out_of_range cfg c)
       else if s < 1 then
         Inl (DiceValueError_init ''{I18N:dice.message.error.value.sides.out_of_range}'' (PInt s))
       else if s = 1 then
         Inl (DiceValueError_init ''{I18N:dice.message.error.value.sides.d1}'' PNone)
       else if a > c then
         Inl (DiceValueError_init ''{I18N:dice.message.error.value.advantage.out_of_range}'' (PInt a))
       else Inr \<lparr>code = dice_code, result = 0, detail = [],
                 count = c, sides = s, adv = a, positive = p\<rparr>)"

subsubsection \<open>\<^verbatim>\<open>FudgeDice\<close>\<close>

definition FudgeDice_get_args :: "string \<Rightarrow> error + int" where
  "FudgeDice_get_args dice_code0 =
     (let dice_code = upper dice_code0;
          dice_code = replace ''D'' [] dice_code
      in if has_illegal ''0123456789F'' dice_code then Inl invalid
         else
           let temp = split CHR ''F'' dice_code;
               dice_count = (if take 1 temp \<noteq> [[]] then concat (take 1 temp) else ''4'')
           in checked_int ''{I18N:dice.message.error.value.count.invalid}'' dice_count)"

definition FudgeDice_init :: "config \<Rightarrow> string \<Rightarrow> error + FudgeDice" where
  "FudgeDice_init cfg dice_code =
     ebind (FudgeDice_get_args dice_code) (\<lambda>c.
       if c < 1 \<or> c > MAX_DICE_COUNT cfg then Inl (count_out_of_range cfg c)
       else Inr \<lparr>code = dice_code, result = 0, detail = [], fcount = c\<rparr>)"

subsubsection \<open>\<^verbatim>\<open>BonusPunishDice\<close>\<close>



subsubsection \<open>\<^verbatim>\<open>WODDice\<close> and \<^verbatim>\<open>DXDice\<close>\<close>

text \<open>
  The two patterns are matched with \<^verbatim>\<open>re.match\<close>: at the start of the notation,
  with nothing required after the last group. \<^verbatim>\<open>(\d+)\<close> takes the longest run of
  digits, and an optional group \<^verbatim>\<open>(?:K(\d+))?\<close> is taken when its letter is followed by
  a digit.
\<close>

definition digits_prefix :: "string \<Rightarrow> string" where
  "digits_prefix s = takeWhile is_digit s"

definition digits_rest :: "string \<Rightarrow> string" where
  "digits_rest s = dropWhile is_digit s"

definition opt_group :: "char \<Rightarrow> string \<Rightarrow> string option" where
  "opt_group k s =
     (case s of
        [] \<Rightarrow> None
      | c # r \<Rightarrow> if c = k \<and> digits_prefix r \<noteq> [] then Some (digits_prefix r) else None)"

definition opt_rest :: "char \<Rightarrow> string \<Rightarrow> string" where
  "opt_rest k s = (if opt_group k s = None then s else digits_rest (tl s))"

definition default_group :: "string option \<Rightarrow> string \<Rightarrow> string" where
  "default_group grp d = (case grp of None \<Rightarrow> d | Some v \<Rightarrow> v)"

definition WODDice_get_args :: "string \<Rightarrow> error + (int \<times> int \<times> int \<times> int \<times> int)" where
  "WODDice_get_args dice_code0 =
     (let dice_code = upper dice_code0;
          group1 = digits_prefix dice_code;
          rest1 = digits_rest dice_code
      in if group1 = [] \<or> take 1 rest1 \<noteq> ''A'' \<or> digits_prefix (tl rest1) = [] then Inl invalid
         else
           let group2 = digits_prefix (tl rest1);
               rest2 = digits_rest (tl rest1);
               rest3 = opt_rest CHR ''K'' rest2;
               rest4 = opt_rest CHR ''Q'' rest3;
               dice_count = group1;
               dice_add_line = group2;
               dice_success_line = default_group (opt_group CHR ''K'' rest2) ''8'';
               dice_success_line_max = default_group (opt_group CHR ''Q'' rest3) ''0'';
               dice_sides = default_group (opt_group CHR ''M'' rest4) ''10''
           in ebind (checked_int ''{I18N:dice.message.error.value.count.invalid}'' dice_count)
                (\<lambda>c. ebind (checked_int ''{I18N:dice.message.error.value.add_line.invalid}'' dice_add_line)
                (\<lambda>a. ebind (checked_int ''{I18N:dice.message.error.value.dice_success_line.invalid}''
                               dice_success_line)
                (\<lambda>k. ebind (checked_int ''{I18N:dice.message.error.value.dice_success_line.invalid}''
                               dice_success_line_max)
                (\<lambda>q. ebind (checked_int ''{I18N:dice.message.error.value.sides.invalid}'' dice_sides)
                (\<lambda>m. Inr (c, a, k, q, m)))))))"

definition WODDice_init :: "config \<Rightarrow> string \<Rightarrow> error + WODDice" where
  "WODDice_init cfg dice_code =
     ebind (WODDice_get_args dice_code) (\<lambda>(c, a, k, q, m).
       if c < 1 \<or> c > MAX_DICE_COUNT cfg then Inl (count_out_of_range cfg c)
       else if m < 1 then
         Inl (DiceValueError_init ''{I18N:dice.message.error.value.sides.out_of_range}'' (PInt m))
       else if m = 1 then
         Inl (DiceValueError_init ''{I18N:dice.message.error.value.sides.d1}'' PNone)
       else if a \<noteq> 0 \<and> (a < 2 \<or> a > m) then Inl (add_line_out_of_range m a)
       else Inr \<lparr>code = dice_code, result = 0, detail = [], wcount = c, wadd_line = a,
                 success_line = k, success_line_max = q, wsides = m\<rparr>)"

definition DXDice_get_args :: "string \<Rightarrow> error + (int \<times> int \<times> int)" where
  "DXDice_get_args dice_code0 =
     (let dice_code = upper dice_code0;
          group1 = digits_prefix dice_code;
          rest1 = digits_rest dice_code
      in if group1 = [] \<or> take 1 rest1 \<noteq> ''C'' \<or> digits_prefix (tl rest1) = [] then Inl invalid
         else
           let group2 = digits_prefix (tl rest1);
               rest2 = digits_rest (tl rest1);
               dice_count = group1;
               dice_add_line = group2;
               dice_sides = default_group (opt_group CHR ''M'' rest2) ''10''
           in ebind (checked_int ''{I18N:dice.message.error.value.count.invalid}'' dice_count)
                (\<lambda>c. ebind (checked_int ''{I18N:dice.message.error.value.add_line.invalid}'' dice_add_line)
                (\<lambda>a. ebind (checked_int ''{I18N:dice.message.error.value.sides.invalid}'' dice_sides)
                (\<lambda>m. Inr (c, a, m)))))"

definition DXDice_init :: "config \<Rightarrow> string \<Rightarrow> error + DXDice" where
  "DXDice_init cfg dice_code =
     ebind (DXDice_get_args dice_code) (\<lambda>(c, a, m).
       if c < 1 \<or> c > MAX_DICE_COUNT cfg then Inl (count_out_of_range cfg c)
       else if m < 1 then
         Inl (DiceValueError_init ''{I18N:dice.message.error.value.sides.out_of_range}'' (PInt m))
       else if m = 1 then
         Inl (DiceValueError_init ''{I18N:dice.message.error.value.sides.d1}'' PNone)
       else if a < 2 \<or> a > m then Inl (add_line_out_of_range m a)
       else Inr \<lparr>code = dice_code, result = 0, detail = [], xcount = c, xadd_line = a,
                 xsides = m\<rparr>)"

subsection \<open>The roll methods\<close>

text \<open>
  A \<^verbatim>\<open>roll\<close> takes the configuration, the object and the random source, and
  returns the object with \<open>result\<close> and \<open>detail\<close> filled in, or the exception
  that escapes, together with the source after the draws. The indices of a
  \<^verbatim>\<open>for i in range(n)\<close> loop are the list \<open>[0..<n]\<close>.
\<close>

text \<open>The last step of every \<^verbatim>\<open>roll\<close>: the trace is discarded when it is too long.\<close>

definition too_long :: "config \<Rightarrow> string \<Rightarrow> string" where
  "too_long cfg output =
     (if int (length output) > MAX_OUTPUT_LEN cfg then ''{I18N:dice.message.too_long}''
      else output)"

subsubsection \<open>\<^verbatim>\<open>Dice.roll\<close>\<close>

text \<open>
  \<^verbatim>\<open>np.array(xs).argsort()\<close>: the indices of \<open>xs\<close> in ascending order of value.
  \<^verbatim>\<open>numpy\<close> is not among the sources, and its default sort does not fix the order of
  the indices of equal values (it depends on the implementation of the sort); here
  they are in index order. Which of several equal dice a keep/drop roll stars in its
  trace depends on that order; the values kept, their sum, the exceptions and the
  draws of a roll do not.
\<close>

definition argsort :: "int list \<Rightarrow> nat list" where
  "argsort xs = sort_key (\<lambda>i. xs ! i) [0..<length xs]"

text \<open>The loop that lists every die and marks the kept ones.\<close>

fun adv_items ::
  "config \<Rightarrow> int list \<Rightarrow> nat list \<Rightarrow> int \<Rightarrow> nat list \<Rightarrow> string \<times> int list
     \<Rightarrow> error + string \<times> int list" where
  "adv_items cfg dice_results indexes cnt [] st = Inr st"
| "adv_items cfg dice_results indexes cnt (i # is) (output_buffer, new_results) =
     ebind (fmt_num cfg (dice_results ! i) False) (\<lambda>s.
       adv_items cfg dice_results indexes cnt is
         (output_buffer @ s
            @ (if i \<in> set indexes then ''*'' else [])
            @ (if int i < cnt - 1 then '', '' else []),
          if i \<in> set indexes then new_results @ [dice_results ! i] else new_results))"

text \<open>The loop that adds the dice up.\<close>

fun sum_items ::
  "config \<Rightarrow> int list \<Rightarrow> nat list \<Rightarrow> int \<times> string \<Rightarrow> error + int \<times> string" where
  "sum_items cfg dice_results [] st = Inr st"
| "sum_items cfg dice_results (i # is) (res, output_buffer) =
     ebind (fmt_num cfg (dice_results ! i) False) (\<lambda>s.
       sum_items cfg dice_results is
         (res + dice_results ! i,
          output_buffer @ s @ (if int i < int (length dice_results) - 1 then ''+'' else [])))"

definition Dice_roll :: "config \<Rightarrow> Dice \<Rightarrow> rng \<Rightarrow> (error + Dice) \<times> rng" where
  "Dice_roll cfg self g =
     (let output = code self;
          dice_results = fst (randints (nat (count self)) 1 (sides self) g);
          g' = snd (randints (nat (count self)) 1 (sides self) g)
      in (ebind
            (if adv self \<noteq> 0 then
               let indexes = argsort dice_results;
                   indexes = (if positive self = 1 then slice_from (- adv self) indexes
                              else slice_to (adv self) indexes)
               in ebind (adv_items cfg dice_results indexes (count self)
                           [0..<nat (count self)] (''=['', []))
                    (\<lambda>(output_buffer, new_results).
                       Inr (output @
                              (if count self \<ge> MAX_OUTPUT_CNT cfg then output_too_long (count self)
                               else output_buffer @ '']''),
                            new_results))
             else Inr (output, dice_results))
            (\<lambda>(output, dice_results).
               ebind
                 (if length dice_results > 1 then
                    ebind (sum_items cfg dice_results [0..<length dice_results] (0, ''=[''))
                      (\<lambda>(res, output_buffer).
                         Inr (res,
                              output @
                                (if count self > MAX_OUTPUT_CNT cfg then output_too_long (count self)
                                 else output_buffer @ '']'')))
                  else (case dice_results of
                          [] \<Rightarrow> Inl IndexError
                        | x # _ \<Rightarrow> Inr (x, output)))
                 (\<lambda>(res, output).
                    ebind (fmt_num cfg res True) (\<lambda>s.
                      Inr (self\<lparr>detail := too_long cfg (output @ ''='' @ s), result := res\<rparr>)))),
          g'))"

subsubsection \<open>\<^verbatim>\<open>FudgeDice.roll\<close>\<close>

fun choices :: "nat \<Rightarrow> 'a list \<Rightarrow> rng \<Rightarrow> 'a list \<times> rng" where
  "choices 0 seq g = ([], g)"
| "choices (Suc n) seq g =
     (let (x, g1) = choice seq g; (xs, g2) = choices n seq g1 in (x # xs, g2))"

text \<open>\<^verbatim>\<open>sep.join(xs)\<close>.\<close>

fun join :: "string \<Rightarrow> string list \<Rightarrow> string" where
  "join sep [] = []"
| "join sep [x] = x"
| "join sep (x # y # r) = x @ sep @ join sep (y # r)"

fun fudge_sum :: "string list \<Rightarrow> int \<Rightarrow> int" where
  "fudge_sum [] res = res"
| "fudge_sum (r # rs) res =
     fudge_sum rs (if r = ''-'' then res - 1 else if r = ''+'' then res + 1 else res)"

definition FudgeDice_roll :: "config \<Rightarrow> FudgeDice \<Rightarrow> rng \<Rightarrow> (error + FudgeDice) \<times> rng" where
  "FudgeDice_roll cfg self g =
     (let output = replace ''D'' [] (code self);
          selected_results = fst (choices (nat (fcount self)) [''-'', ''0'', ''+''] g);
          g' = snd (choices (nat (fcount self)) [''-'', ''0'', ''+''] g);
          output = (if fcount self > MAX_OUTPUT_CNT cfg then output_too_long (fcount self)
                    else output @ ''=['' @ join '', '' selected_results @ '']'');
          res = fudge_sum selected_results 0
      in (ebind (fmt_num cfg res True) (\<lambda>s.
            Inr (self\<lparr>detail := too_long cfg (output @ ''='' @ s), result := res\<rparr>)),
          g'))"

subsubsection \<open>\<^verbatim>\<open>BonusPunishDice.roll\<close>\<close>

text \<open>\<^verbatim>\<open>[int(str(item) + str(d100_digit)) for item in dice_results]\<close>.\<close>

fun digit_results :: "int \<Rightarrow> int list \<Rightarrow> error + int list" where
  "digit_results d100_digit [] = Inr []"
| "digit_results d100_digit (item # items) =
     (case py_int (str_int item @ str_int d100_digit) of
        None \<Rightarrow> Inl ValueError
      | Some v \<Rightarrow> ebind (digit_results d100_digit items) (\<lambda>vs. Inr (v # vs)))"

fun bp_items :: "config \<Rightarrow> int list \<Rightarrow> int \<Rightarrow> nat list \<Rightarrow> string \<Rightarrow> error + string" where
  "bp_items cfg dice_results cnt [] output_buffer = Inr output_buffer"
| "bp_items cfg dice_results cnt (i # is) output_buffer =
     ebind (fmt_num cfg (dice_results ! i) False) (\<lambda>s.
       bp_items cfg dice_results cnt is
         (output_buffer @ s @ (if int i < cnt - 1 then '', '' else [])))"

definition BonusPunishDice_roll ::
  "config \<Rightarrow> BonusPunishDice \<Rightarrow> rng \<Rightarrow> (error + BonusPunishDice) \<times> rng" where
  "BonusPunishDice_roll cfg self g =
     (let d100_result = fst (randint 1 100 g);
          g1 = snd (randint 1 100 g);
          d100_digit = d100_result mod 10;
          output = ''D100='' @ str_int d100_result @ '', '' @ code self;
          dice_results = fst (randints (nat (bcount self)) 0 9 g1);
          g' = snd (randints (nat (bcount self)) 0 9 g1)
      in (ebind (digit_results d100_digit dice_results) (\<lambda>substituted.
            let new_results = map (\<lambda>item. if item = 0 then 100 else item) (d100_result # substituted)
            in ebind
                 (if bcount self > 1 then
                    (if bcount self \<ge> MAX_OUTPUT_CNT cfg
                     then Inr (output @ output_too_long (bcount self))
                     else ebind (bp_items cfg dice_results (bcount self)
                                   [0..<nat (bcount self)] ''=['')
                            (\<lambda>output_buffer. Inr (output @ output_buffer @ '']'')))
                  else (case dice_results of
                          [] \<Rightarrow> Inl IndexError
                        | x # _ \<Rightarrow> ebind (fmt_num cfg x True) (\<lambda>s. Inr (output @ ''='' @ s))))
                 (\<lambda>output.
                    ebind (if bpositive self then py_max new_results else py_min new_results)
                      (\<lambda>res. ebind (fmt_num cfg res True) (\<lambda>s.
                         Inr (self\<lparr>detail := too_long cfg (output @ ''='' @ s),
                                   result := res\<rparr>))))),
          g'))"

subsubsection \<open>\<^verbatim>\<open>WODDice.roll\<close>\<close>

text \<open>
  The first loop of a round draws the dice; \<^verbatim>\<open>dice_results[i]\<close> is the value just
  appended. A die is a success when it reaches a non-zero success line or stays at or
  below a non-zero maximal success line (\<^verbatim>\<open>indexes\<close>, without duplicates), and
  it explodes when it reaches a non-zero add line.
\<close>

fun WOD_draw ::
  "WODDice \<Rightarrow> nat list \<Rightarrow> int list \<times> bool list \<times> nat list \<times> rng
     \<Rightarrow> int list \<times> bool list \<times> nat list \<times> rng" where
  "WOD_draw self [] st = st"
| "WOD_draw self (i # is) (dice_results, dice_exceed_results, indexes, g) =
     (let x = fst (randint 1 (wsides self) g);
          g1 = snd (randint 1 (wsides self) g)
      in WOD_draw self is
           (dice_results @ [x],
            dice_exceed_results @ [wadd_line self \<noteq> 0 \<and> x \<ge> wadd_line self],
            remdups
              (indexes
                 @ (if success_line self \<noteq> 0 \<and> success_line self \<le> x then [i] else [])
                 @ (if success_line_max self \<noteq> 0 \<and> success_line_max self \<ge> x then [i] else [])),
            g1))"

text \<open>
  The second loop of a round writes the dice and counts the exploded ones and the
  successes; the state is \<open>(exceed_result, success_count, output_buffer)\<close>.
\<close>

fun WOD_items ::
  "config \<Rightarrow> int list \<Rightarrow> bool list \<Rightarrow> nat list \<Rightarrow> int \<Rightarrow> nat list \<Rightarrow> int \<times> int \<times> string
     \<Rightarrow> error + int \<times> int \<times> string" where
  "WOD_items cfg dice_results dice_exceed_results indexes dice_count [] st = Inr st"
| "WOD_items cfg dice_results dice_exceed_results indexes dice_count (i # is)
     (exceed_result, success_count, output_buffer) =
     ebind (fmt_num cfg (dice_results ! i) False) (\<lambda>s.
       WOD_items cfg dice_results dice_exceed_results indexes dice_count is
         (if dice_exceed_results ! i then exceed_result + 1 else exceed_result,
          if i \<in> set indexes then success_count + 1 else success_count,
          output_buffer
            @ (if dice_exceed_results ! i then ''<'' else [])
            @ s
            @ (if i \<in> set indexes then ''*'' else [])
            @ (if dice_exceed_results ! i then ''>'' else [])
            @ (if int i < dice_count - 1 then '', '' else [])))"

text \<open>
  The body of \<^verbatim>\<open>while dice_count:\<close>, one round: it returns the number of exploded
  dice (the next \<^verbatim>\<open>dice_count\<close>), the success count and the buffer, or the exception
  of \<^verbatim>\<open>fmt_num\<close>, with the source after the draws.
\<close>

definition WOD_round ::
  "config \<Rightarrow> WODDice \<Rightarrow> int \<Rightarrow> int \<Rightarrow> string \<Rightarrow> rng \<Rightarrow> (error + int \<times> int \<times> string) \<times> rng"
  where
  "WOD_round cfg self dice_count success_count output_buffer g =
     (case WOD_draw self [0..<nat dice_count] ([], [], [], g) of
        (dice_results, dice_exceed_results, indexes, g1) \<Rightarrow>
          (ebind (WOD_items cfg dice_results dice_exceed_results indexes dice_count
                    [0..<nat dice_count] (0, success_count, output_buffer @ ''{''))
             (\<lambda>(exceed_result, success_count1, output_buffer1).
                Inr (exceed_result, success_count1, output_buffer1 @ ''}, '')),
           g1))"

text \<open>
  \<^verbatim>\<open>while dice_count:\<close> has no bound on the number of rounds, so the loop is a partial
  function: \<open>None\<close> is a loop that never ends. It returns the success count and the
  buffer, or the exception of a round, with the source.
\<close>

partial_function (option) WOD_loop ::
  "config \<Rightarrow> WODDice \<Rightarrow> int \<Rightarrow> int \<Rightarrow> string \<Rightarrow> rng \<Rightarrow> ((error + int \<times> string) \<times> rng) option"
  where
  "WOD_loop cfg self dice_count success_count output_buffer g =
     (if dice_count \<noteq> 0 then
        (case WOD_round cfg self dice_count success_count output_buffer g of
           (Inl e, g1) \<Rightarrow> Some (Inl e, g1)
         | (Inr (exceed_result, success_count1, output_buffer1), g1) \<Rightarrow>
             WOD_loop cfg self exceed_result success_count1 output_buffer1 g1)
      else Some (Inr (success_count, output_buffer), g))"

declare WOD_loop.simps [code]

definition WODDice_roll ::
  "config \<Rightarrow> WODDice \<Rightarrow> rng \<Rightarrow> ((error + WODDice) \<times> rng) option" where
  "WODDice_roll cfg self g =
     (case WOD_loop cfg self (wcount self) 0 ''=['' g of
        None \<Rightarrow> None
      | Some (Inl e, g') \<Rightarrow> Some (Inl e, g')
      | Some (Inr (success_count, output_buffer), g') \<Rightarrow>
          (let output_buffer = slice_to (- 2) output_buffer @ '']'';
               output = code self @
                 (if wcount self \<ge> MAX_OUTPUT_CNT cfg then output_too_long (wcount self)
                  else output_buffer);
               res = success_count
           in Some (ebind (fmt_num cfg res True) (\<lambda>s.
                      Inr (self\<lparr>detail := too_long cfg (output @ ''='' @ s), result := res\<rparr>)),
                    g')))"

subsubsection \<open>\<^verbatim>\<open>DXDice.roll\<close>\<close>

fun DX_draw ::
  "DXDice \<Rightarrow> nat list \<Rightarrow> int list \<times> bool list \<times> rng \<Rightarrow> int list \<times> bool list \<times> rng" where
  "DX_draw self [] st = st"
| "DX_draw self (i # is) (dice_results, dice_exceed_results, g) =
     (let x = fst (randint 1 (xsides self) g);
          g1 = snd (randint 1 (xsides self) g)
      in DX_draw self is
           (dice_results @ [x], dice_exceed_results @ [x \<ge> xadd_line self], g1))"

fun DX_items ::
  "config \<Rightarrow> int list \<Rightarrow> bool list \<Rightarrow> int \<Rightarrow> nat list \<Rightarrow> int \<times> string
     \<Rightarrow> error + int \<times> string" where
  "DX_items cfg dice_results dice_exceed_results dice_count [] st = Inr st"
| "DX_items cfg dice_results dice_exceed_results dice_count (i # is)
     (exceed_result, output_buffer) =
     ebind (fmt_num cfg (dice_results ! i) False) (\<lambda>s.
       DX_items cfg dice_results dice_exceed_results dice_count is
         (if dice_exceed_results ! i then exceed_result + 1 else exceed_result,
          output_buffer
            @ (if dice_exceed_results ! i then ''<'' else [])
            @ s
            @ (if dice_exceed_results ! i then ''>'' else [])
            @ (if int i < dice_count - 1 then '', '' else [])))"

text \<open>One round of the loop: the number of exploded dice, the draws and the buffer.\<close>

definition DX_round ::
  "config \<Rightarrow> DXDice \<Rightarrow> int \<Rightarrow> string \<Rightarrow> rng \<Rightarrow> (error + int \<times> int list \<times> string) \<times> rng"
  where
  "DX_round cfg self dice_count output_buffer g =
     (case DX_draw self [0..<nat dice_count] ([], [], g) of
        (dice_results, dice_exceed_results, g1) \<Rightarrow>
          (ebind (DX_items cfg dice_results dice_exceed_results dice_count
                    [0..<nat dice_count] (0, output_buffer @ ''{''))
             (\<lambda>(exceed_result, output_buffer1).
                Inr (exceed_result, dice_results, output_buffer1 @ ''}, '')),
           g1))"

text \<open>
  The loop keeps the number of rounds and the draws of the last round;
  \<^verbatim>\<open>dice_results\<close> is unbound (\<open>None\<close>) before the first round.
\<close>

partial_function (option) DX_loop ::
  "config \<Rightarrow> DXDice \<Rightarrow> int \<Rightarrow> int \<Rightarrow> int list option \<Rightarrow> string \<Rightarrow> rng
     \<Rightarrow> ((error + int \<times> int list option \<times> string) \<times> rng) option"
  where
  "DX_loop cfg self dice_count dice_rounds last_results output_buffer g =
     (if dice_count \<noteq> 0 then
        (case DX_round cfg self dice_count output_buffer g of
           (Inl e, g1) \<Rightarrow> Some (Inl e, g1)
         | (Inr (exceed_result, dice_results, output_buffer1), g1) \<Rightarrow>
             DX_loop cfg self exceed_result (dice_rounds + 1) (Some dice_results)
               output_buffer1 g1)
      else Some (Inr (dice_rounds, last_results, output_buffer), g))"

declare DX_loop.simps [code]

definition DXDice_roll ::
  "config \<Rightarrow> DXDice \<Rightarrow> rng \<Rightarrow> ((error + DXDice) \<times> rng) option" where
  "DXDice_roll cfg self g =
     (case DX_loop cfg self (xcount self) 0 None ''=['' g of
        None \<Rightarrow> None
      | Some (Inl e, g') \<Rightarrow> Some (Inl e, g')
      | Some (Inr (dice_rounds, last_results, output_buffer), g') \<Rightarrow>
          (let output_buffer = slice_to (- 2) output_buffer @ '']'';
               output = code self @
                 (if xcount self \<ge> MAX_OUTPUT_CNT cfg then output_too_long (xcount self)
                  else output_buffer)
           in Some (ebind (case last_results of
                             None \<Rightarrow> Inl UnboundLocalError
                           | Some dice_results \<Rightarrow> py_max dice_results) (\<lambda>m.
                      let res = (dice_rounds - 1) * xsides self + m
                      in ebind (fmt_num cfg res True) (\<lambda>s.
                           Inr (self\<lparr>detail := too_long cfg (output @ ''='' @ s),
                                     result := res\<rparr>))),
                    g')))"

subsection \<open>Notions used by the claims\<close>

text \<open>The \<open>n\<close> values that a source hands out after the next \<open>k\<close>.\<close>

definition drawn :: "rng \<Rightarrow> nat \<Rightarrow> nat \<Rightarrow> int list" where
  "drawn g k n = map (\<lambda>i. feed g (consumed g + k + i)) [0..<n]"

text \<open>
  The candidates of a Bonus/Punish roll with base \<open>b\<close> and drawn digits \<open>ds\<close>. For
  digits \<open>d\<close> and \<open>u\<close>, \<^verbatim>\<open>int(str(d) + str(u))\<close> is \<open>10 * d + u\<close>. \<open>candidates\<close> puts
  the units digit of the base behind each drawn digit; \<open>claimed_candidates\<close> follows
  the words of claim C3 and puts the tens digit of the base there. A candidate 0
  counts as 100.
\<close>

definition candidates :: "int \<Rightarrow> int list \<Rightarrow> int list" where
  "candidates b ds =
     map (\<lambda>c. if c = 0 then 100 else c) (b # map (\<lambda>d. 10 * d + b mod 10) ds)"

definition claimed_candidates :: "int \<Rightarrow> int list \<Rightarrow> int list" where
  "claimed_candidates b ds =
     map (\<lambda>c. if c = 0 then 100 else c) (b # map (\<lambda>d. 10 * d + (b div 10) mod 10) ds)"

text \<open>
  A die of the Exploding Pool explodes when it reaches a non-zero add line, and is a
  success when it reaches a non-zero success line or stays at or below a non-zero
  maximal success line.
\<close>

definition explodes :: "WODDice \<Rightarrow> int \<Rightarrow> bool" where
  "explodes w x = (wadd_line w \<noteq> 0 \<and> x \<ge> wadd_line w)"

definition is_success :: "WODDice \<Rightarrow> int \<Rightarrow> bool" where
  "is_success w x =
     ((success_line w \<noteq> 0 \<and> success_line w \<le> x) \<or>
      (success_line_max w \<noteq> 0 \<and> success_line_max w \<ge> x))"

text \<open>The exception that formatting the values \<open>xs\<close> in order raises first, if any.\<close>

fun first_error :: "config \<Rightarrow> int list \<Rightarrow> error option" where
  "first_error cfg [] = None"
| "first_error cfg (x # xs) =
     (case fmt_num cfg x False of Inl e \<Rightarrow> Some e | Inr s \<Rightarrow> first_error cfg xs)"

text \<open>The list \<^verbatim>\<open>indexes\<close> after the first loop of a round with the draws \<open>xs\<close>.\<close>

fun WOD_indexes :: "WODDice \<Rightarrow> nat list \<Rightarrow> int list \<Rightarrow> nat list \<Rightarrow> nat list" where
  "WOD_indexes w (i # js) (x # xs) ix =
     WOD_indexes w js xs
       (remdups
          (ix @ (if success_line w \<noteq> 0 \<and> success_line w \<le> x then [i] else [])
              @ (if success_line_max w \<noteq> 0 \<and> success_line_max w \<ge> x then [i] else [])))"
| "WOD_indexes w js xs ix = ix"

text \<open>Two sources hand out the same sequence of values from now on.\<close>

definition same_seq :: "rng \<Rightarrow> rng \<Rightarrow> bool" where
  "same_seq g g' = (\<forall>i. feed g (consumed g + i) = feed g' (consumed g' + i))"

text \<open>What a roll leaves of the numeric result: the exception or the \<open>result\<close> field.\<close>

definition result_of :: "(error + 'a DiceItemBase_scheme) \<times> rng \<Rightarrow> (error + int) \<times> rng" where
  "result_of r = (map_sum id result (fst r), snd r)"

text \<open>
  The trace \<open>dt\<close> is the text \<open>front\<close>, the placeholder carrying the count \<open>cnt\<close> in place
  of the itemized bracket, and the result \<open>res\<close> (the whole subject to the length limit).
\<close>

definition placeholder_detail :: "config \<Rightarrow> string \<Rightarrow> int \<Rightarrow> int \<Rightarrow> string \<Rightarrow> bool" where
  "placeholder_detail cfg front cnt res dt =
     (case fmt_num cfg res True of
        Inl e \<Rightarrow> False
      | Inr s \<Rightarrow> dt = too_long cfg (front @ output_too_long cnt @ ''='' @ s))"

text \<open>
  The rounds of a Double-Cross roll, read off the draws: a round of \<open>n\<close> dice takes the
  next \<open>n\<close> values, and the dice that reach the add line are rolled again in the next
  round. \<open>DX_rounds fuel x n g\<close> is the number of rounds and the draws of the final
  round, if there are at most \<open>fuel\<close> rounds.
\<close>

fun DX_rounds :: "nat \<Rightarrow> DXDice \<Rightarrow> nat \<Rightarrow> rng \<Rightarrow> (nat \<times> int list) option" where
  "DX_rounds 0 x n g = None"
| "DX_rounds (Suc fuel) x n g =
     (let xs = drawn g 0 n;
          m = length (filter (\<lambda>v. v \<ge> xadd_line x) xs)
      in if m = 0 then Some (1, xs)
         else map_option (\<lambda>(k, rs). (Suc k, rs))
                (DX_rounds fuel x m (g\<lparr>consumed := consumed g + n\<rparr>)))"

text \<open>The two error kinds of the interpreter: syntax errors and value errors.\<close>

fun is_input_error :: "error \<Rightarrow> bool" where
  "is_input_error (DiceSyntaxError m) = True"
| "is_input_error (DiceValueError m) = True"
| "is_input_error e = False"

definition no_input_error :: "error + 'a \<Rightarrow> bool" where
  "no_input_error m = (case m of Inl e \<Rightarrow> \<not> is_input_error e | Inr x \<Rightarrow> True)"






section \<open>Properties\<close>

subsection \<open>Decimal strings\<close>

lemma digit_char_digit: "digit_char d \<in> set ''0123456789''"
proof -
  have "d mod 10 < length ''0123456789''" by simp
  then show ?thesis unfolding digit_char_def by (rule nth_mem)
qed

lemma str_nat_digits: "set (str_nat n) \<subseteq> set ''0123456789''"
proof (induction n rule: str_nat.induct)
  case (1 n)
  show ?case
  proof (cases "n < 10")
    case True
    then show ?thesis using digit_char_digit [of n] by (subst str_nat.simps) simp
  next
    case False
    then show ?thesis using 1 digit_char_digit [of "n mod 10"]
      by (subst str_nat.simps) simp
  qed
qed

lemma str_nat_nonempty: "str_nat n \<noteq> []"
  by (subst str_nat.simps) simp

lemma str_int_chars: "set (str_int n) \<subseteq> set ''-0123456789''"
proof -
  have sub: "set ''0123456789'' \<subseteq> set ''-0123456789''" by (simp add: subset_insertI2)
  have "set (str_nat k) \<subseteq> set ''-0123456789''" for k
    using str_nat_digits [of k] sub by (rule subset_trans)
  from this [of "nat n"] this [of "nat (- n)"] show ?thesis
    unfolding str_int_def by simp
qed

lemma str_int_no_e: "CHR ''e'' \<notin> set (str_int n)"
  using str_int_chars [of n] by auto

lemma str_int_no_paren: "hd (str_int n) \<noteq> CHR ''(''"
proof -
  have "str_int n \<noteq> []" unfolding str_int_def using str_nat_nonempty by simp
  then have "hd (str_int n) \<in> set (str_int n)" by simp
  then show ?thesis using str_int_chars [of n] by auto
qed

lemma format_e_has_e: "CHR ''e'' \<in> set (format_e p x)"
  unfolding format_e_def by (cases "sci_round p (nat \<bar>x\<bar>)") simp

lemma hd_take1_append: "ds \<noteq> [] \<Longrightarrow> hd (take 1 ds @ r) = hd ds"
  by (cases ds) simp_all

lemma format_e_no_paren: "hd (format_e p x) \<noteq> CHR ''(''"
proof -
  obtain m e where me: "sci_round p (nat \<bar>x\<bar>) = (m, e)" by (cases "sci_round p (nat \<bar>x\<bar>)")
  have ne: "str_nat m \<noteq> []" by (rule str_nat_nonempty)
  then have "hd (str_nat m) \<in> set (str_nat m)" by simp
  then have h: "hd (str_nat m) \<noteq> CHR ''(''" using str_nat_digits [of m] by auto
  show ?thesis
  proof (cases "x < 0")
    case True
    then show ?thesis unfolding format_e_def me by simp
  next
    case False
    then have "hd (format_e p x) = hd (str_nat m)"
      unfolding format_e_def me using hd_take1_append [OF ne] by simp
    then show ?thesis using h by simp
  qed
qed

subsection \<open>The conversion to a float\<close>

lemma bit_length_le: "n < 2 ^ k \<Longrightarrow> bit_length n \<le> k"
proof (induction k arbitrary: n)
  case 0
  then show ?case by (subst bit_length.simps) simp
next
  case (Suc k)
  then have "n div 2 < 2 ^ k" by simp
  then have "bit_length (n div 2) \<le> k" by (rule Suc.IH)
  then show ?case by (subst bit_length.simps) simp
qed

lemma bit_length_upper: "n < 2 ^ bit_length n"
proof (induction n rule: bit_length.induct)
  case (1 n)
  show ?case
  proof (cases "n = 0")
    case True
    then show ?thesis by simp
  next
    case False
    then have ih: "n div 2 < 2 ^ bit_length (n div 2)" using 1 by simp
    have bl: "bit_length n = Suc (bit_length (n div 2))"
      using False by (subst bit_length.simps) simp
    have "n < 2 * (n div 2 + 1)" by presburger
    also have "\<dots> \<le> 2 * 2 ^ bit_length (n div 2)" using ih by simp
    finally show ?thesis using bl by simp
  qed
qed

lemma bit_length_lower: "0 < n \<Longrightarrow> 2 ^ (bit_length n - 1) \<le> n"
proof (induction n rule: bit_length.induct)
  case (1 n)
  have bl: "bit_length n = Suc (bit_length (n div 2))"
    using 1(2) by (subst bit_length.simps) simp
  show ?case
  proof (cases "n div 2 = 0")
    case True
    then have "bit_length (n div 2) = 0" by (simp add: bit_length.simps)
    then show ?thesis using bl 1(2) by simp
  next
    case False
    then have ih: "2 ^ (bit_length (n div 2) - 1) \<le> n div 2" using 1 by simp
    have pos: "0 < bit_length (n div 2)" using False by (subst bit_length.simps) simp
    have "(2::nat) ^ (bit_length n - 1) = 2 * 2 ^ (bit_length (n div 2) - 1)"
      using pos bl by (cases "bit_length (n div 2)") simp_all
    also have "\<dots> \<le> 2 * (n div 2)" using ih by simp
    also have "\<dots> \<le> n" by presburger
    finally show ?thesis .
  qed
qed

lemma round_half_even_le: "round_half_even a b \<le> a div b + 1"
  unfolding round_half_even_def Let_def by simp

lemma round_half_even_down: "2 * (a mod b) < b \<Longrightarrow> round_half_even a b = a div b"
  unfolding round_half_even_def Let_def by simp

text \<open>The largest integers that convert to a double.\<close>

lemma float_round_fits:
  fixes a :: nat
  assumes bl: "53 < bit_length a" and small: "a < 2 ^ 1024 - 2 ^ 970"
  shows "round_half_even a (2 ^ (bit_length a - 53)) * 2 ^ (bit_length a - 53) < 2 ^ 1024"
proof -
  define k where "k = bit_length a - 53"
  define B :: nat where "B = 2 ^ k"
  have a0: "0 < a" using bl by (cases "a = 0") (simp_all add: bit_length.simps)
  have up: "a < 2 ^ bit_length a" by (rule bit_length_upper)
  have lo: "2 ^ (bit_length a - 1) \<le> a" using a0 by (rule bit_length_lower)
  have "(2::nat) ^ (bit_length a - 1) < 2 ^ 1024" using lo small by simp
  then have "bit_length a - 1 < 1024" by (rule power_less_imp_less_exp [rotated]) simp
  then have k971: "k \<le> 971" unfolding k_def by simp
  have blk: "bit_length a = 53 + k" using bl unfolding k_def by simp
  have aB: "a < 2 ^ 53 * B" using up unfolding blk B_def by (simp add: power_add)
  have Bpos: "0 < B" unfolding B_def by simp
  have q: "a div B < 2 ^ 53" using aB Bpos by (simp add: less_mult_imp_div_less mult.commute)
  show ?thesis
  proof (cases "k = 971 \<and> a div B = 2 ^ 53 - 1")
    case False
    then consider "k < 971" | "a div B < 2 ^ 53 - 1" using k971 q by linarith
    then show ?thesis
    proof cases
      case 1
      have "round_half_even a B * B \<le> (a div B + 1) * B"
        by (rule mult_le_mono1) (rule round_half_even_le)
      also have "\<dots> \<le> 2 ^ 53 * B" using q by simp
      also have "\<dots> = 2 ^ (53 + k)" unfolding B_def by (simp add: power_add)
      also have "\<dots> < 2 ^ 1024" using 1 by (intro power_strict_increasing) simp_all
      finally show ?thesis unfolding B_def k_def .
    next
      case 2
      have "round_half_even a B * B \<le> (a div B + 1) * B"
        by (rule mult_le_mono1) (rule round_half_even_le)
      also have "\<dots> < 2 ^ 53 * B" using 2 Bpos by simp
      also have "\<dots> = 2 ^ (53 + k)" unfolding B_def by (simp add: power_add)
      also have "\<dots> \<le> 2 ^ 1024" using k971 by (intro power_increasing) simp_all
      finally show ?thesis unfolding B_def k_def .
    qed
  next
    case True
    then have kk: "k = 971" and qq: "a div B = 2 ^ 53 - 1" by simp_all
    have B2: "B = 2 * 2 ^ 970" unfolding B_def kk by simp
    have tot: "(2::nat) ^ 1024 = 2 ^ 53 * B" unfolding B_def kk by (simp flip: power_add)
    have "a = (a div B) * B + a mod B" by simp
    then have "a = (2 ^ 53 - 1) * B + a mod B" using qq by simp
    then have "(2 ^ 53 - 1) * B + a mod B < 2 ^ 53 * B - 2 ^ 970" using small tot by simp
    moreover have "(2 ^ 53 - 1) * B = 2 ^ 53 * B - B" by (simp add: diff_mult_distrib)
    moreover have "B \<le> 2 ^ 53 * B" by simp
    ultimately have "a mod B < B - 2 ^ 970" by linarith
    then have "2 * (a mod B) < B" using B2 by linarith
    then have "round_half_even a B = a div B" by (rule round_half_even_down)
    then have "round_half_even a B * B = (2 ^ 53 - 1) * B" using qq by simp
    also have "\<dots> < 2 ^ 53 * B" using Bpos by simp
    finally show ?thesis unfolding tot B_def k_def .
  qed
qed

lemma float_of_int_fits:
  assumes "\<bar>n\<bar> < 2 ^ 1024 - 2 ^ 970"
  shows "\<exists>x. float_of_int n = Inr x"
proof (cases "bit_length (nat \<bar>n\<bar>) \<le> 53")
  case True
  then show ?thesis unfolding float_of_int_def Let_def by simp
next
  case False
  have "nat \<bar>n\<bar> < nat (2 ^ 1024 - 2 ^ 970)" using assms by linarith
  also have "nat (2 ^ 1024 - 2 ^ 970) = (2::nat) ^ 1024 - 2 ^ 970"
    by (simp add: nat_diff_distrib nat_power_eq)
  finally have "nat \<bar>n\<bar> < 2 ^ 1024 - 2 ^ 970" .
  with False have "round_half_even (nat \<bar>n\<bar>) (2 ^ (bit_length (nat \<bar>n\<bar>) - 53))
      * 2 ^ (bit_length (nat \<bar>n\<bar>) - 53) < 2 ^ 1024"
    by (intro float_round_fits) simp_all
  then show ?thesis using False unfolding float_of_int_def Let_def by (simp add: not_le)
qed

subsection \<open>The numeric formatter\<close>

lemmas fmt_eval = fmt_num_def default_config_def float_of_int_def bit_length.simps
  round_half_even_def sci_round_def format_e_def str_int_def str_nat.simps digit_char_def Let_def

lemma fmt_num_plain:
  "\<not> (0 < MAX_OUTPUT_EXP cfg \<and> 10 ^ nat (MAX_OUTPUT_EXP cfg) \<le> \<bar>n\<bar>)
     \<Longrightarrow> fmt_num cfg n sep = Inr (str_int n)"
  unfolding fmt_num_def by auto

lemma fmt_num_sci:
  "0 < MAX_OUTPUT_EXP cfg \<Longrightarrow> 10 ^ nat (MAX_OUTPUT_EXP cfg) \<le> \<bar>n\<bar> \<Longrightarrow> float_of_int n = Inr x
     \<Longrightarrow> fmt_num cfg n sep =
           Inr (if sep then format_e (nat (MAX_OUTPUT_EXP cfg)) x
                else ''('' @ format_e (nat (MAX_OUTPUT_EXP cfg)) x @ '')'')"
  unfolding fmt_num_def by (simp add: Let_def)

lemma float_of_int_error: "float_of_int n = Inl e \<Longrightarrow> e = OverflowError"
  unfolding float_of_int_def Let_def by (simp split: if_splits)

lemma fmt_num_error: "fmt_num cfg n sep = Inl e \<Longrightarrow> e = OverflowError"
  unfolding fmt_num_def
  by (cases "float_of_int n") (auto simp: Let_def split: if_splits dest: float_of_int_error)

lemma fmt_num_total:
  assumes "\<bar>n\<bar> < 2 ^ 1024 - 2 ^ 970"
  shows "\<exists>s. fmt_num cfg n sep = Inr s"
proof -
  obtain x where "float_of_int n = Inr x" using float_of_int_fits [OF assms] by blast
  then show ?thesis unfolding fmt_num_def by (simp add: Let_def)
qed

lemma bit_length_pow2: "bit_length (2 ^ k) = Suc k"
proof (induction k)
  case 0
  show ?case by (simp add: bit_length.simps)
next
  case (Suc k)
  have "bit_length (2 ^ Suc k) = Suc (bit_length (2 ^ Suc k div 2))"
    by (subst bit_length.simps) simp
  then show ?case using Suc by simp
qed

lemma round_half_even_exact: "0 < b \<Longrightarrow> round_half_even (q * b) b = q"
  unfolding round_half_even_def Let_def by simp

lemma float_of_int_overflow: "float_of_int (2 ^ 1024) = Inl OverflowError"
proof -
  have n: "nat \<bar>2 ^ 1024 :: int\<bar> = 2 ^ 1024" by (simp add: nat_power_eq)
  have s: "(2::nat) ^ 1024 = 2 ^ 52 * 2 ^ 972" by (simp flip: power_add)
  have "round_half_even (2 ^ 1024) (2 ^ 972) = 2 ^ 52"
    unfolding s by (rule round_half_even_exact) simp
  then have "round_half_even (2 ^ 1024) (2 ^ 972) * 2 ^ 972 = 2 ^ 1024" using s by simp
  then show ?thesis
    unfolding float_of_int_def Let_def n bit_length_pow2 by simp
qed


lemma fmt_num_huge: "fmt_num default_config (2 ^ 1024) sep = Inl OverflowError"
proof -
  have "(10::int) ^ 9 \<le> 2 ^ 30" by simp
  also have "(2::int) ^ 30 \<le> 2 ^ 1024" by (rule power_increasing) simp_all
  finally have "(10::int) ^ 9 \<le> \<bar>2 ^ 1024\<bar>" by simp
  then show ?thesis
    unfolding fmt_num_def using float_of_int_overflow by (simp add: default_config_def)
qed

subsection \<open>The random source and the error monad\<close>

lemma randints_eq:
  "randints n a b g =
     (map (\<lambda>i. feed g (consumed g + i)) [0..<n], g\<lparr>consumed := consumed g + n\<rparr>)"
proof (induction n arbitrary: g)
  case 0
  show ?case by simp
next
  case (Suc n)
  show ?case
    by (simp add: Suc randint_def map_upt_Suc del: upt_Suc)
qed

lemma length_randints: "length (fst (randints n a b g)) = n"
  by (simp add: randints_eq)

lemma ebind_eq_Inr: "ebind m f = Inr y \<longleftrightarrow> (\<exists>x. m = Inr x \<and> f x = Inr y)"
  by (cases m) simp_all

lemma ebind_eq_Inl: "ebind m f = Inl e \<longleftrightarrow> m = Inl e \<or> (\<exists>x. m = Inr x \<and> f x = Inl e)"
  by (cases m) simp_all

lemma sum_list_bounds:
  fixes xs :: "int list"
  assumes "\<forall>x\<in>set xs. lo \<le> x \<and> x \<le> hi"
  shows "int (length xs) * lo \<le> sum_list xs \<and> sum_list xs \<le> int (length xs) * hi"
  using assms by (induction xs) (auto simp: algebra_simps)

lemmas parse_eval = Dice_init_def Dice_get_args_def upper_def upper_char_def replace.simps
  has_illegal_def split.simps partition_before_def partition_after_def checked_int_def isint_def
  py_int_def is_digit_def nat_of_digits_def digit_val_def Let_def default_config_def

lemmas roll_eval = Dice_roll_def randints_eq replay_def sum_items.simps adv_items.simps
  too_long_def fmt_num_def str_int_def str_nat.simps digit_char_def default_config_def
  upt_conv_Cons Let_def

subsection \<open>\<^verbatim>\<open>Dice.roll\<close> without keep or drop\<close>

lemma sum_items_result:
  "sum_items cfg xs js (r, b) = Inr (r', b') \<Longrightarrow> r' = r + sum_list (map ((!) xs) js)"
proof (induction js arbitrary: r b)
  case Nil
  then show ?case by simp
next
  case (Cons i js)
  from Cons.prems obtain s where
    "sum_items cfg xs js (r + xs ! i,
        b @ s @ (if int i < int (length xs) - 1 then ''+'' else [])) = Inr (r', b')"
    by (auto simp: ebind_eq_Inr)
  from Cons.IH [OF this] show ?case by simp
qed

lemma sum_items_total:
  "(\<And>i. i \<in> set js \<Longrightarrow> \<exists>s. fmt_num cfg (xs ! i) False = Inr s)
     \<Longrightarrow> \<exists>r' b'. sum_items cfg xs js (r, b) = Inr (r', b')"
proof (induction js arbitrary: r b)
  case Nil
  show ?case by simp
next
  case (Cons i js)
  obtain s where s: "fmt_num cfg (xs ! i) False = Inr s" using Cons.prems [of i] by auto
  have "\<exists>r' b'. sum_items cfg xs js (r + xs ! i,
        b @ s @ (if int i < int (length xs) - 1 then ''+'' else [])) = Inr (r', b')"
    by (rule Cons.IH) (simp add: Cons.prems)
  then show ?case using s by simp
qed

lemma sum_items_error: "sum_items cfg xs js st = Inl e \<Longrightarrow> e = OverflowError"
proof (induction js arbitrary: st)
  case Nil
  then show ?case by simp
next
  case (Cons i js)
  obtain r b where st: "st = (r, b)" by (cases st)
  from Cons.prems show ?case
    unfolding st by (auto simp: ebind_eq_Inl dest: fmt_num_error Cons.IH)
qed

text \<open>The roll without keep or drop, with the draws named.\<close>

lemma Dice_roll_plain:
  assumes "adv d = 0"
  shows "fst (Dice_roll cfg d g) =
    (let xs = map (\<lambda>i. feed g (consumed g + i)) [0..<nat (count d)] in
     ebind
       (if length xs > 1 then
          ebind (sum_items cfg xs [0..<length xs] (0, ''=[''))
            (\<lambda>(res, output_buffer).
               Inr (res, code d @
                  (if count d > MAX_OUTPUT_CNT cfg then output_too_long (count d)
                   else output_buffer @ '']'')))
        else (case xs of [] \<Rightarrow> Inl IndexError | x # _ \<Rightarrow> Inr (x, code d)))
       (\<lambda>(res, output).
          ebind (fmt_num cfg res True) (\<lambda>s.
            Inr (d\<lparr>detail := too_long cfg (output @ ''='' @ s), result := res\<rparr>))))"
  using assms unfolding Dice_roll_def randints_eq by (simp add: Let_def)

lemma Dice_roll_plain_result:
  assumes adv: "adv d = 0" and cnt: "1 \<le> count d"
    and roll: "fst (Dice_roll cfg d g) = Inr d'"
  shows "result d' = sum_list (map (\<lambda>i. feed g (consumed g + i)) [0..<nat (count d)])"
proof -
  define xs where "xs = map (\<lambda>i. feed g (consumed g + i)) [0..<nat (count d)]"
  have len: "length xs = nat (count d)" unfolding xs_def by simp
  show ?thesis
  proof (cases "length xs > 1")
    case True
    from roll obtain res b where si: "sum_items cfg xs [0..<length xs] (0, ''=['') = Inr (res, b)"
      and d': "\<exists>s. d' = d\<lparr>detail := s, result := res\<rparr>"
      unfolding Dice_roll_plain [OF adv] Let_def xs_def [symmetric] using True
      by (auto simp: ebind_eq_Inr)
    have "res = sum_list (map ((!) xs) [0..<length xs])" using sum_items_result [OF si] by simp
    then have "res = sum_list xs" by (simp add: map_nth)
    then show ?thesis using d' unfolding xs_def by auto
  next
    case False
    then have "length xs = 1" using len cnt by simp
    then obtain x where x: "xs = [x]" by (cases xs) auto
    from roll have "\<exists>s. d' = d\<lparr>detail := s, result := x\<rparr>"
      unfolding Dice_roll_plain [OF adv] Let_def xs_def [symmetric] x
      by (auto simp: ebind_eq_Inr)
    then show ?thesis unfolding xs_def [symmetric] x by auto
  qed
qed

lemma Dice_roll_plain_total:
  assumes adv: "adv d = 0" and cnt: "1 \<le> count d"
    and fits: "\<And>x. x \<in> set (map (\<lambda>i. feed g (consumed g + i)) [0..<nat (count d)])
                 \<Longrightarrow> \<exists>s. fmt_num cfg x False = Inr s"
    and fits_sum: "\<And>sep. \<exists>s. fmt_num cfg
             (sum_list (map (\<lambda>i. feed g (consumed g + i)) [0..<nat (count d)])) sep = Inr s"
  shows "\<exists>d'. fst (Dice_roll cfg d g) = Inr d'"
proof -
  define xs where "xs = map (\<lambda>i. feed g (consumed g + i)) [0..<nat (count d)]"
  have len: "length xs = nat (count d)" unfolding xs_def by simp
  show ?thesis
  proof (cases "length xs > 1")
    case True
    have "\<exists>r' b'. sum_items cfg xs [0..<length xs] (0, ''=['') = Inr (r', b')"
      by (rule sum_items_total) (use fits in \<open>auto simp: xs_def [symmetric]\<close>)
    then obtain res b where si: "sum_items cfg xs [0..<length xs] (0, ''=['') = Inr (res, b)"
      by blast
    have "res = sum_list (map ((!) xs) [0..<length xs])" using sum_items_result [OF si] by simp
    then have "res = sum_list xs" by (simp add: map_nth)
    then obtain s where "fmt_num cfg res True = Inr s"
      using fits_sum [of True] unfolding xs_def by auto
    then show ?thesis
      unfolding Dice_roll_plain [OF adv] Let_def xs_def [symmetric] using True si by simp
  next
    case False
    then have "length xs = 1" using len cnt by simp
    then obtain x where x: "xs = [x]" by (cases xs) auto
    obtain s where "fmt_num cfg x True = Inr s"
      using fits_sum [of True] unfolding xs_def [symmetric] x by auto
    then show ?thesis
      unfolding Dice_roll_plain [OF adv] Let_def xs_def [symmetric] x by simp
  qed
qed

lemma Dice_roll_single:
  assumes "adv d = 0" and "count d = 1"
  shows "fst (Dice_roll cfg d g) =
    ebind (fmt_num cfg (feed g (consumed g)) True) (\<lambda>s.
      Inr (d\<lparr>detail := too_long cfg (code d @ ''='' @ s), result := feed g (consumed g)\<rparr>))"
  using assms by (simp add: Dice_roll_plain)

subsection \<open>\<^verbatim>\<open>BonusPunishDice.roll\<close>\<close>

lemma digit_char_facts:
  assumes "k < 10"
  shows "is_digit (digit_char k)" and "digit_val (digit_char k) = k"
    and "digit_char k \<noteq> CHR ''-''" and "digit_char k \<noteq> CHR ''+''"
proof -
  from assms have "k \<in> {0, 1, 2, 3, 4, 5, 6, 7, 8, 9}" by auto
  then show "is_digit (digit_char k)" and "digit_val (digit_char k) = k"
    and "digit_char k \<noteq> CHR ''-''" and "digit_char k \<noteq> CHR ''+''"
    by (auto simp: digit_char_def digit_val_def is_digit_def)
qed

lemma str_int_digit:
  assumes "0 \<le> d" "d \<le> 9"
  shows "str_int d = [digit_char (nat d)]"
proof -
  have "nat d < 10" using assms by simp
  then have "str_nat (nat d) = [digit_char (nat d)]"
    by (subst str_nat.simps) simp
  then show ?thesis using assms unfolding str_int_def by simp
qed

lemma py_int_two_digits:
  assumes "0 \<le> d" "d \<le> 9" "0 \<le> u" "u \<le> 9"
  shows "py_int (str_int d @ str_int u) = Some (10 * d + u)"
proof -
  have d: "nat d < 10" and u: "nat u < 10" using assms by simp_all
  show ?thesis
    using assms digit_char_facts [OF d] digit_char_facts [OF u]
    by (simp add: str_int_digit py_int_def nat_of_digits_def)
qed

lemma digit_results_eq:
  assumes "0 \<le> u" "u \<le> 9" and "\<forall>d\<in>set ds. 0 \<le> d \<and> d \<le> 9"
  shows "digit_results u ds = Inr (map (\<lambda>d. 10 * d + u) ds)"
  using assms(3) by (induction ds) (simp_all add: py_int_two_digits assms(1,2))

lemma bp_items_total:
  "(\<And>i. i \<in> set js \<Longrightarrow> \<exists>s. fmt_num cfg (xs ! i) False = Inr s)
     \<Longrightarrow> \<exists>b'. bp_items cfg xs cnt js b = Inr b'"
proof (induction js arbitrary: b)
  case Nil
  show ?case by simp
next
  case (Cons i js)
  obtain s where s: "fmt_num cfg (xs ! i) False = Inr s" using Cons.prems [of i] by auto
  have "\<exists>b'. bp_items cfg xs cnt js (b @ s @ (if int i < cnt - 1 then '', '' else [])) = Inr b'"
    by (rule Cons.IH) (simp add: Cons.prems)
  then show ?case using s by simp
qed

lemma py_max_eq: "xs \<noteq> [] \<Longrightarrow> py_max xs = Inr (Max (set xs))"
proof (cases xs)
  case Nil
  then show "xs \<noteq> [] \<Longrightarrow> ?thesis" by simp
next
  case (Cons a list)
  then show ?thesis unfolding py_max_def using Max.set_eq_fold [of a list] by simp
qed

lemma py_min_eq: "xs \<noteq> [] \<Longrightarrow> py_min xs = Inr (Min (set xs))"
proof (cases xs)
  case Nil
  then show "xs \<noteq> [] \<Longrightarrow> ?thesis" by simp
next
  case (Cons a list)
  then show ?thesis unfolding py_min_def using Min.set_eq_fold [of a list] by simp
qed

lemma candidates_range:
  assumes "1 \<le> b" "b \<le> 100" and "\<forall>d\<in>set ds. 0 \<le> d \<and> d \<le> 9"
  shows "\<forall>c\<in>set (candidates b ds). 1 \<le> c \<and> c \<le> 100"
proof -
  have u: "0 \<le> b mod 10" "b mod 10 \<le> 9" by simp_all
  have "1 \<le> (if 10 * d + b mod 10 = 0 then 100 else 10 * d + b mod 10) \<and>
        (if 10 * d + b mod 10 = 0 then 100 else 10 * d + b mod 10) \<le> 100"
    if "0 \<le> d" "d \<le> 9" for d using that u by auto
  then show ?thesis using assms unfolding candidates_def by auto
qed

subsection \<open>One round of the exploding loops\<close>

lemma drawn_Suc:
  "drawn g k (Suc n) = feed g (consumed g + k) # drawn g (Suc k) n"
  unfolding drawn_def by (simp add: map_upt_Suc del: upt_Suc)

lemma drawn_0 [simp]: "drawn g k 0 = []"
  unfolding drawn_def by simp

lemma length_drawn [simp]: "length (drawn g k n) = n"
  unfolding drawn_def by simp

lemma drawn_advance: "drawn (g\<lparr>consumed := consumed g + m\<rparr>) k n = drawn g (m + k) n"
  unfolding drawn_def by (simp add: add.assoc)

lemma randints_drawn: "fst (randints n a b g) = drawn g 0 n"
  unfolding randints_eq drawn_def by simp

lemma length_filter_nth:
  "length (filter (\<lambda>j. P (xs ! j)) [0..<length xs]) = length (filter P xs)"
proof -
  have "filter P xs = filter P (map ((!) xs) [0..<length xs])" by (simp add: map_nth)
  also have "\<dots> = map ((!) xs) (filter (P \<circ> (!) xs) [0..<length xs])" by (rule filter_map)
  finally have "length (filter P xs) = length (filter (P \<circ> (!) xs) [0..<length xs])" by simp
  then show ?thesis by (simp add: comp_def)
qed

lemma WOD_draw_eq:
  "WOD_draw w js (rs, es, ix, g) =
     (rs @ drawn g 0 (length js), es @ map (explodes w) (drawn g 0 (length js)),
      WOD_indexes w js (drawn g 0 (length js)) ix, g\<lparr>consumed := consumed g + length js\<rparr>)"
proof (induction js arbitrary: rs es ix g)
  case Nil
  show ?case by simp
next
  case (Cons i js)
  have d: "drawn (g\<lparr>consumed := Suc (consumed g)\<rparr>) 0 (length js) = drawn g (Suc 0) (length js)"
    using drawn_advance [of g 1 0 "length js"] by simp
  show ?case
    by (simp add: Cons randint_def drawn_Suc d explodes_def Let_def)
qed

lemma set_WOD_indexes:
  "length xs = length js \<Longrightarrow>
   set (WOD_indexes w js xs ix) = set ix \<union> {js ! m | m. m < length js \<and> is_success w (xs ! m)}"
proof (induction w js xs ix rule: WOD_indexes.induct)
  case (1 w i js x xs ix)
  have "{(i # js) ! m | m. m < length (i # js) \<and> is_success w ((x # xs) ! m)} =
        (if is_success w x then {i} else {}) \<union> {js ! m | m. m < length js \<and> is_success w (xs ! m)}"
    (is "?A = ?B")
  proof (intro set_eqI iffI)
    fix y assume "y \<in> ?A"
    then obtain m where m: "y = (i # js) ! m" "m < length (i # js)" "is_success w ((x # xs) ! m)"
      by blast
    then show "y \<in> ?B" by (cases m) auto
  next
    fix y assume "y \<in> ?B"
    then consider "is_success w x" "y = i"
      | m where "y = js ! m" "m < length js" "is_success w (xs ! m)"
      by (auto split: if_splits)
    then show "y \<in> ?A"
    proof cases
      case 1
      then have "y = (i # js) ! 0 \<and> 0 < length (i # js) \<and> is_success w ((x # xs) ! 0)" by simp
      then show ?thesis by blast
    next
      case (2 m)
      then have "y = (i # js) ! Suc m \<and> Suc m < length (i # js) \<and> is_success w ((x # xs) ! Suc m)"
        by simp
      then show ?thesis by blast
    qed
  qed
  moreover have "set (WOD_indexes w js xs
       (remdups (ix @ (if success_line w \<noteq> 0 \<and> success_line w \<le> x then [i] else [])
              @ (if success_line_max w \<noteq> 0 \<and> success_line_max w \<ge> x then [i] else [])))) =
     set ix \<union> (if is_success w x then {i} else {})
       \<union> {js ! m | m. m < length js \<and> is_success w (xs ! m)}"
    using 1 by (auto simp: is_success_def)
  ultimately show ?case by (simp add: Un_assoc)
qed simp_all

lemma upt_image_nth:
  "{[0..<k] ! m | m. m < length [0..<k] \<and> Q m} = {m. m < k \<and> Q m}"
proof (intro set_eqI iffI)
  fix x assume "x \<in> {[0..<k] ! m | m. m < length [0..<k] \<and> Q m}"
  then show "x \<in> {m. m < k \<and> Q m}" by auto
next
  fix x assume "x \<in> {m. m < k \<and> Q m}"
  then have "x = [0..<k] ! x \<and> x < length [0..<k] \<and> Q x" by simp
  then show "x \<in> {[0..<k] ! m | m. m < length [0..<k] \<and> Q m}" by blast
qed

lemma fmt_num_cfg:
  "MAX_OUTPUT_EXP cfg' = MAX_OUTPUT_EXP cfg \<Longrightarrow> fmt_num cfg' x sep = fmt_num cfg x sep"
  by (simp add: fmt_num_def)

lemma WOD_items_cases:
  "(case WOD_items cfg rs es ix n js (e0, s0, b0) of
      Inl e \<Rightarrow> first_error cfg (map ((!) rs) js) = Some e
    | Inr (e1, s1, b1) \<Rightarrow>
        first_error cfg (map ((!) rs) js) = None \<and>
        e1 = e0 + int (length (filter (\<lambda>j. es ! j) js)) \<and>
        s1 = s0 + int (length (filter (\<lambda>j. j \<in> set ix) js)))"
proof (induction js arbitrary: e0 s0 b0)
  case Nil
  show ?case by simp
next
  case (Cons j js)
  show ?case
  proof (cases "fmt_num cfg (rs ! j) False")
    case (Inl e)
    then show ?thesis by simp
  next
    case (Inr s)
    define e' where "e' = (if es ! j then e0 + 1 else e0)"
    define s' where "s' = (if j \<in> set ix then s0 + 1 else s0)"
    define b' where "b' = b0 @ (if es ! j then ''<'' else []) @ s
            @ (if j \<in> set ix then ''*'' else [])
            @ (if es ! j then ''>'' else []) @ (if int j < n - 1 then '', '' else [])"
    have step: "WOD_items cfg rs es ix n (j # js) (e0, s0, b0) =
                WOD_items cfg rs es ix n js (e', s', b')"
      using Inr by (simp add: e'_def s'_def b'_def)
    have fe: "first_error cfg (map ((!) rs) (j # js)) = first_error cfg (map ((!) rs) js)"
      using Inr by simp
    have cnt: "e' + int (length (filter (\<lambda>j. es ! j) js))
               = e0 + int (length (filter (\<lambda>j. es ! j) (j # js)))"
      by (simp add: e'_def)
    have cnt': "s' + int (length (filter (\<lambda>j. j \<in> set ix) js))
               = s0 + int (length (filter (\<lambda>j. j \<in> set ix) (j # js)))"
      by (simp add: s'_def)
    show ?thesis
      unfolding step fe cnt [symmetric] cnt' [symmetric] by (rule Cons)
  qed
qed

lemma WOD_items_cfg:
  "MAX_OUTPUT_EXP cfg' = MAX_OUTPUT_EXP cfg \<Longrightarrow>
   WOD_items cfg' rs es ix n js st = WOD_items cfg rs es ix n js st"
proof (induction js arbitrary: st)
  case Nil
  show ?case by simp
next
  case (Cons j js)
  obtain e0 s0 b0 where st: "st = (e0, s0, b0)" by (cases st)
  have f: "fmt_num cfg' (rs ! j) False = fmt_num cfg (rs ! j) False"
    using Cons.prems by (rule fmt_num_cfg)
  show ?case unfolding st using Cons.IH [OF Cons.prems] by (simp add: f)
qed

lemma WOD_round_eq:
  "WOD_round cfg w n c b g =
     (ebind (WOD_items cfg (drawn g 0 (nat n)) (map (explodes w) (drawn g 0 (nat n)))
               (WOD_indexes w [0..<nat n] (drawn g 0 (nat n)) []) n [0..<nat n]
               (0, c, b @ ''{''))
        (\<lambda>(exceed_result, success_count1, output_buffer1).
           Inr (exceed_result, success_count1, output_buffer1 @ ''}, '')),
      g\<lparr>consumed := consumed g + nat n\<rparr>)"
  unfolding WOD_round_def WOD_draw_eq by simp

lemma WOD_round_cases:
  "snd (WOD_round cfg w n c b g) = g\<lparr>consumed := consumed g + nat n\<rparr> \<and>
   (case fst (WOD_round cfg w n c b g) of
      Inl e \<Rightarrow> first_error cfg (drawn g 0 (nat n)) = Some e
    | Inr (ex, c1, b1) \<Rightarrow>
        first_error cfg (drawn g 0 (nat n)) = None \<and>
        ex = int (length (filter (explodes w) (drawn g 0 (nat n)))) \<and>
        c1 = c + int (length (filter (is_success w) (drawn g 0 (nat n)))))"
proof -
  let ?xs = "drawn g 0 (nat n)"
  let ?ix = "WOD_indexes w [0..<nat n] ?xs []"
  let ?js = "[0..<nat n]"
  have len: "length ?xs = length ?js" by simp
  have m: "map ((!) ?xs) ?js = ?xs"
    using map_nth [of ?xs] by simp
  have ex: "length (filter (\<lambda>j. map (explodes w) ?xs ! j) ?js) = length (filter (explodes w) ?xs)"
  proof -
    have "filter (\<lambda>j. map (explodes w) ?xs ! j) ?js = filter (\<lambda>j. explodes w (?xs ! j)) ?js"
      by (rule filter_cong) auto
    then show ?thesis using length_filter_nth [of "explodes w" ?xs] by simp
  qed
  have su: "length (filter (\<lambda>j. j \<in> set ?ix) ?js) = length (filter (is_success w) ?xs)"
  proof -
    have "filter (\<lambda>j. j \<in> set ?ix) ?js = filter (\<lambda>j. is_success w (?xs ! j)) ?js"
    proof (rule filter_cong [OF refl])
      fix j assume "j \<in> set ?js"
      then have j: "j < nat n" by simp
      have "set ?ix = {?js ! m | m. m < length ?js \<and> is_success w (?xs ! m)}"
        using set_WOD_indexes [OF len, of w "[]"] by simp
      also have "\<dots> = {m. m < nat n \<and> is_success w (?xs ! m)}"
        by (rule upt_image_nth)
      finally show "(j \<in> set ?ix) = is_success w (?xs ! j)" using j by simp
    qed
    then show ?thesis using length_filter_nth [of "is_success w" ?xs] by simp
  qed
  show ?thesis
    unfolding WOD_round_eq
    using WOD_items_cases [where cfg = cfg and rs = ?xs and es = "map (explodes w) ?xs"
        and ix = ?ix and n = n and js = ?js and ?e0.0 = 0 and ?s0.0 = c and ?b0.0 = "b @ ''{''"]
    unfolding m ex su
    by (auto split: sum.splits)
qed

lemma DX_draw_eq:
  "DX_draw w js (rs, es, g) =
     (rs @ drawn g 0 (length js), es @ map (\<lambda>x. x \<ge> xadd_line w) (drawn g 0 (length js)),
      g\<lparr>consumed := consumed g + length js\<rparr>)"
proof (induction js arbitrary: rs es g)
  case Nil
  show ?case by simp
next
  case (Cons i js)
  have d: "drawn (g\<lparr>consumed := Suc (consumed g)\<rparr>) 0 (length js) = drawn g (Suc 0) (length js)"
    using drawn_advance [of g 1 0 "length js"] by simp
  show ?case
    by (simp add: Cons randint_def drawn_Suc d Let_def)
qed

lemma DX_items_cases:
  "(case DX_items cfg rs es n js (e0, b0) of
      Inl e \<Rightarrow> first_error cfg (map ((!) rs) js) = Some e
    | Inr (e1, b1) \<Rightarrow>
        first_error cfg (map ((!) rs) js) = None \<and>
        e1 = e0 + int (length (filter (\<lambda>j. es ! j) js)))"
proof (induction js arbitrary: e0 b0)
  case Nil
  show ?case by simp
next
  case (Cons j js)
  show ?case
  proof (cases "fmt_num cfg (rs ! j) False")
    case (Inl e)
    then show ?thesis by simp
  next
    case (Inr s)
    define e' where "e' = (if es ! j then e0 + 1 else e0)"
    define b' where "b' = b0 @ (if es ! j then ''<'' else []) @ s
            @ (if es ! j then ''>'' else []) @ (if int j < n - 1 then '', '' else [])"
    have step: "DX_items cfg rs es n (j # js) (e0, b0) = DX_items cfg rs es n js (e', b')"
      using Inr by (simp add: e'_def b'_def)
    have fe: "first_error cfg (map ((!) rs) (j # js)) = first_error cfg (map ((!) rs) js)"
      using Inr by simp
    have cnt: "e' + int (length (filter (\<lambda>j. es ! j) js))
               = e0 + int (length (filter (\<lambda>j. es ! j) (j # js)))"
      by (simp add: e'_def)
    show ?thesis
      unfolding step fe cnt [symmetric] by (rule Cons)
  qed
qed

lemma DX_items_cfg:
  "MAX_OUTPUT_EXP cfg' = MAX_OUTPUT_EXP cfg \<Longrightarrow>
   DX_items cfg' rs es n js st = DX_items cfg rs es n js st"
proof (induction js arbitrary: st)
  case Nil
  show ?case by simp
next
  case (Cons j js)
  obtain e0 b0 where st: "st = (e0, b0)" by (cases st)
  have f: "fmt_num cfg' (rs ! j) False = fmt_num cfg (rs ! j) False"
    using Cons.prems by (rule fmt_num_cfg)
  show ?case unfolding st using Cons.IH [OF Cons.prems] by (simp add: f)
qed

lemma DX_round_eq:
  "DX_round cfg w n b g =
     (ebind (DX_items cfg (drawn g 0 (nat n)) (map (\<lambda>x. x \<ge> xadd_line w) (drawn g 0 (nat n)))
               n [0..<nat n] (0, b @ ''{''))
        (\<lambda>(exceed_result, output_buffer1).
           Inr (exceed_result, drawn g 0 (nat n), output_buffer1 @ ''}, '')),
      g\<lparr>consumed := consumed g + nat n\<rparr>)"
  unfolding DX_round_def DX_draw_eq by simp

lemma DX_round_cases:
  "snd (DX_round cfg w n b g) = g\<lparr>consumed := consumed g + nat n\<rparr> \<and>
   (case fst (DX_round cfg w n b g) of
      Inl e \<Rightarrow> first_error cfg (drawn g 0 (nat n)) = Some e
    | Inr (ex, rs, b1) \<Rightarrow>
        first_error cfg (drawn g 0 (nat n)) = None \<and>
        rs = drawn g 0 (nat n) \<and>
        ex = int (length (filter (\<lambda>x. x \<ge> xadd_line w) (drawn g 0 (nat n)))))"
proof -
  let ?xs = "drawn g 0 (nat n)"
  let ?js = "[0..<nat n]"
  have m: "map ((!) ?xs) ?js = ?xs"
    using map_nth [of ?xs] by simp
  have ex: "length (filter (\<lambda>j. map (\<lambda>x. x \<ge> xadd_line w) ?xs ! j) ?js)
            = length (filter (\<lambda>x. x \<ge> xadd_line w) ?xs)"
  proof -
    have "filter (\<lambda>j. map (\<lambda>x. x \<ge> xadd_line w) ?xs ! j) ?js
          = filter (\<lambda>j. xadd_line w \<le> ?xs ! j) ?js"
      by (rule filter_cong) auto
    then show ?thesis using length_filter_nth [of "\<lambda>x. x \<ge> xadd_line w" ?xs] by simp
  qed
  show ?thesis
    unfolding DX_round_eq
    using DX_items_cases [where cfg = cfg and rs = ?xs
        and es = "map (\<lambda>x. x \<ge> xadd_line w) ?xs"
        and n = n and js = ?js and ?e0.0 = 0 and ?b0.0 = "b @ ''{''"]
    unfolding m ex
    by (auto split: sum.splits)
qed

lemma first_error_cfg:
  "MAX_OUTPUT_EXP cfg' = MAX_OUTPUT_EXP cfg \<Longrightarrow> first_error cfg' xs = first_error cfg xs"
  by (induction xs) (simp_all add: fmt_num_cfg [of cfg' cfg] split: sum.splits)

lemma same_seq_drawn: "same_seq g g' \<Longrightarrow> drawn g 0 n = drawn g' 0 n"
  unfolding same_seq_def drawn_def by simp

lemma same_seq_advance:
  "same_seq g g' \<Longrightarrow>
   same_seq (g\<lparr>consumed := consumed g + n\<rparr>) (g'\<lparr>consumed := consumed g' + n\<rparr>)"
  unfolding same_seq_def by (simp add: add.assoc)

lemma same_seq_refl: "same_seq g g"
  unfolding same_seq_def by simp

subsection \<open>Two runs of a loop\<close>

text \<open>
  If corresponding rounds of two runs either both raise, with results related by \<open>Q\<close>,
  or both go on with the same number of dice and states related by \<open>R\<close>, then the
  second run ends when the first does, with results related by \<open>Q\<close>.
\<close>

lemma WOD_loop_rel:
  assumes run: "WOD_loop cfg w n c b g = Some r"
    and start: "R (c, b, g) (c', b', g')"
    and step: "\<And>n c b g c' b' g'. R (c, b, g) (c', b', g') \<Longrightarrow> n \<noteq> 0 \<Longrightarrow>
       (case (WOD_round cfg w n c b g, WOD_round cfg' w' n c' b' g') of
          ((Inl e, g1), (Inl e', g1')) \<Rightarrow> Q (Inl e, g1) (Inl e', g1')
        | ((Inr (ex, c1, b1), g1), (Inr (ex', c1', b1'), g1')) \<Rightarrow>
             ex = ex' \<and> R (c1, b1, g1) (c1', b1', g1')
        | _ \<Rightarrow> False)"
    and final: "\<And>c b g c' b' g'. R (c, b, g) (c', b', g') \<Longrightarrow> Q (Inr (c, b), g) (Inr (c', b'), g')"
  shows "\<exists>r'. WOD_loop cfg' w' n c' b' g' = Some r' \<and> Q r r'"
proof -
  let ?P = "\<lambda>cfg0 w0 n c b g r. cfg0 = cfg \<and> w0 = w \<longrightarrow>
      (\<forall>c' b' g'. R (c, b, g) (c', b', g') \<longrightarrow>
         (\<exists>r'. WOD_loop cfg' w' n c' b' g' = Some r' \<and> Q r r'))"
  have "?P cfg w n c b g r"
  proof (rule WOD_loop.raw_induct [where P = ?P, OF _ run], goal_cases)
    case (1 loop cfg0 w0 n c b g r)
    show ?case
    proof (intro impI allI, elim conjE)
      fix c' b' g'
      assume eq: "cfg0 = cfg" "w0 = w" and R: "R (c, b, g) (c', b', g')"
      show "\<exists>r'. WOD_loop cfg' w' n c' b' g' = Some r' \<and> Q r r'"
      proof (cases "n = 0")
        case True
        then have "r = (Inr (c, b), g)" using 1(2) by simp
        moreover have "WOD_loop cfg' w' n c' b' g' = Some (Inr (c', b'), g')"
          using True by (subst WOD_loop.simps) simp
        ultimately show ?thesis using final [OF R] by simp
      next
        case False
        note st = step [OF R False]
        obtain a g1 where r1: "WOD_round cfg w n c b g = (a, g1)" by (cases "WOD_round cfg w n c b g")
        obtain a' g1' where r2: "WOD_round cfg' w' n c' b' g' = (a', g1')"
          by (cases "WOD_round cfg' w' n c' b' g'")
        show ?thesis
        proof (cases a)
          case (Inl e)
          then obtain e' where a': "a' = Inl e'" and q: "Q (Inl e, g1) (Inl e', g1')"
            using st r1 r2 by (cases a') auto
          have "r = (Inl e, g1)" using 1(2) False r1 Inl eq by simp
          moreover have "WOD_loop cfg' w' n c' b' g' = Some (Inl e', g1')"
            using False r2 a' by (subst WOD_loop.simps) simp
          ultimately show ?thesis using q by simp
        next
          case (Inr t)
          obtain ex c1 b1 where t: "t = (ex, c1, b1)" by (cases t)
          from st r1 r2 Inr t obtain c1' b1' where a': "a' = Inr (ex, c1', b1')"
            and R1: "R (c1, b1, g1) (c1', b1', g1')"
            by (cases a') auto
          have "loop cfg w ex c1 b1 g1 = Some r" using 1(2) False r1 Inr t eq by simp
          from 1(1) [OF this] R1
          obtain r' where "WOD_loop cfg' w' ex c1' b1' g1' = Some r'" and "Q r r'" by blast
          moreover have "WOD_loop cfg' w' n c' b' g' = WOD_loop cfg' w' ex c1' b1' g1'"
            using False r2 a' by (subst WOD_loop.simps) simp
          ultimately show ?thesis by simp
        qed
      qed
    qed
  qed
  with start show ?thesis by blast
qed

lemma DX_loop_rel:
  assumes run: "DX_loop cfg w n k l b g = Some r"
    and start: "R (k, l, b, g) (k', l', b', g')"
    and step: "\<And>n k l b g k' l' b' g'. R (k, l, b, g) (k', l', b', g') \<Longrightarrow> n \<noteq> 0 \<Longrightarrow>
       (case (DX_round cfg w n b g, DX_round cfg' w' n b' g') of
          ((Inl e, g1), (Inl e', g1')) \<Rightarrow> Q (Inl e, g1) (Inl e', g1')
        | ((Inr (ex, rs, b1), g1), (Inr (ex', rs', b1'), g1')) \<Rightarrow>
             ex = ex' \<and> R (k + 1, Some rs, b1, g1) (k' + 1, Some rs', b1', g1')
        | _ \<Rightarrow> False)"
    and final: "\<And>k l b g k' l' b' g'. R (k, l, b, g) (k', l', b', g') \<Longrightarrow>
       Q (Inr (k, l, b), g) (Inr (k', l', b'), g')"
  shows "\<exists>r'. DX_loop cfg' w' n k' l' b' g' = Some r' \<and> Q r r'"
proof -
  let ?P = "\<lambda>cfg0 w0 n k l b g r. cfg0 = cfg \<and> w0 = w \<longrightarrow>
      (\<forall>k' l' b' g'. R (k, l, b, g) (k', l', b', g') \<longrightarrow>
         (\<exists>r'. DX_loop cfg' w' n k' l' b' g' = Some r' \<and> Q r r'))"
  have "?P cfg w n k l b g r"
  proof (rule DX_loop.raw_induct [where P = ?P, OF _ run], goal_cases)
    case (1 loop cfg0 w0 n k l b g r)
    show ?case
    proof (intro impI allI, elim conjE)
      fix k' l' b' g'
      assume eq: "cfg0 = cfg" "w0 = w" and R: "R (k, l, b, g) (k', l', b', g')"
      show "\<exists>r'. DX_loop cfg' w' n k' l' b' g' = Some r' \<and> Q r r'"
      proof (cases "n = 0")
        case True
        then have "r = (Inr (k, l, b), g)" using 1(2) by simp
        moreover have "DX_loop cfg' w' n k' l' b' g' = Some (Inr (k', l', b'), g')"
          using True by (subst DX_loop.simps) simp
        ultimately show ?thesis using final [OF R] by simp
      next
        case False
        note st = step [OF R False]
        obtain a g1 where r1: "DX_round cfg w n b g = (a, g1)" by (cases "DX_round cfg w n b g")
        obtain a' g1' where r2: "DX_round cfg' w' n b' g' = (a', g1')"
          by (cases "DX_round cfg' w' n b' g'")
        show ?thesis
        proof (cases a)
          case (Inl e)
          then obtain e' where a': "a' = Inl e'" and q: "Q (Inl e, g1) (Inl e', g1')"
            using st r1 r2 by (cases a') auto
          have "r = (Inl e, g1)" using 1(2) False r1 Inl eq by simp
          moreover have "DX_loop cfg' w' n k' l' b' g' = Some (Inl e', g1')"
            using False r2 a' by (subst DX_loop.simps) simp
          ultimately show ?thesis using q by simp
        next
          case (Inr t)
          obtain ex rs b1 where t: "t = (ex, rs, b1)" by (cases t)
          from st r1 r2 Inr t obtain rs' b1' where a': "a' = Inr (ex, rs', b1')"
            and R1: "R (k + 1, Some rs, b1, g1) (k' + 1, Some rs', b1', g1')"
            by (cases a') auto
          have "loop cfg w ex (k + 1) (Some rs) b1 g1 = Some r" using 1(2) False r1 Inr t eq by simp
          from 1(1) [OF this] R1
          obtain r' where "DX_loop cfg' w' ex (k' + 1) (Some rs') b1' g1' = Some r'" and "Q r r'"
            by blast
          moreover have "DX_loop cfg' w' n k' l' b' g' = DX_loop cfg' w' ex (k' + 1) (Some rs') b1' g1'"
            using False r2 a' by (subst DX_loop.simps) simp
          ultimately show ?thesis by simp
        qed
      qed
    qed
  qed
  with start show ?thesis by blast
qed

subsection \<open>The configuration values a roll depends on\<close>

lemma WOD_loop_cfg_le:
  assumes "MAX_OUTPUT_EXP cfg' = MAX_OUTPUT_EXP cfg"
    and "WOD_loop cfg w n c b g = Some r"
  shows "WOD_loop cfg' w n c b g = Some r"
proof -
  have rd: "WOD_round cfg' w n c b g = WOD_round cfg w n c b g" for n c b g
    unfolding WOD_round_eq by (simp add: WOD_items_cfg [OF assms(1)])
  have "\<exists>r'. WOD_loop cfg' w n c b g = Some r' \<and> r = r'"
  proof (rule WOD_loop_rel [where R = "(=)" and Q = "(=)", OF assms(2)], goal_cases)
    case 1
    show ?case by (rule refl)
  next
    case (2 n c b g c' b' g')
    then show ?case unfolding rd by (auto split: prod.splits sum.splits)
  next
    case (3 c b g c' b' g')
    then show ?case by simp
  qed
  then show ?thesis by blast
qed

lemma WOD_loop_cfg:
  assumes "MAX_OUTPUT_EXP cfg' = MAX_OUTPUT_EXP cfg"
  shows "WOD_loop cfg' w n c b g = WOD_loop cfg w n c b g"
proof (cases "WOD_loop cfg w n c b g")
  case (Some r)
  then show ?thesis using WOD_loop_cfg_le [OF assms] by simp
next
  case None
  show ?thesis
  proof (cases "WOD_loop cfg' w n c b g")
    case (Some r)
    then show ?thesis using WOD_loop_cfg_le [OF assms [symmetric]] by simp
  next
    case None': None
    show ?thesis unfolding None None' by (rule refl)
  qed
qed

lemma DX_loop_cfg_le:
  assumes "MAX_OUTPUT_EXP cfg' = MAX_OUTPUT_EXP cfg"
    and "DX_loop cfg w n k l b g = Some r"
  shows "DX_loop cfg' w n k l b g = Some r"
proof -
  have rd: "DX_round cfg' w n b g = DX_round cfg w n b g" for n b g
    unfolding DX_round_eq by (simp add: DX_items_cfg [OF assms(1)])
  have "\<exists>r'. DX_loop cfg' w n k l b g = Some r' \<and> r = r'"
  proof (rule DX_loop_rel [where R = "(=)" and Q = "(=)", OF assms(2)], goal_cases)
    case 1
    show ?case by (rule refl)
  next
    case (2 n k l b g k' l' b' g')
    then show ?case unfolding rd by (auto split: prod.splits sum.splits)
  next
    case (3 k l b g k' l' b' g')
    then show ?case by simp
  qed
  then show ?thesis by blast
qed

lemma DX_loop_cfg:
  assumes "MAX_OUTPUT_EXP cfg' = MAX_OUTPUT_EXP cfg"
  shows "DX_loop cfg' w n k l b g = DX_loop cfg w n k l b g"
proof (cases "DX_loop cfg w n k l b g")
  case (Some r)
  then show ?thesis using DX_loop_cfg_le [OF assms] by simp
next
  case None
  show ?thesis
  proof (cases "DX_loop cfg' w n k l b g")
    case (Some r)
    then show ?thesis using DX_loop_cfg_le [OF assms [symmetric]] by simp
  next
    case None': None
    show ?thesis unfolding None None' by (rule refl)
  qed
qed

lemma adv_items_cfg:
  "MAX_OUTPUT_EXP cfg' = MAX_OUTPUT_EXP cfg \<Longrightarrow>
   adv_items cfg' rs ix n js st = adv_items cfg rs ix n js st"
proof (induction js arbitrary: st)
  case Nil
  show ?case by simp
next
  case (Cons j js)
  obtain b0 r0 where st: "st = (b0, r0)" by (cases st)
  have f: "fmt_num cfg' (rs ! j) False = fmt_num cfg (rs ! j) False"
    using Cons.prems by (rule fmt_num_cfg)
  show ?case unfolding st using Cons.IH [OF Cons.prems] by (simp add: f)
qed

lemma sum_items_cfg:
  "MAX_OUTPUT_EXP cfg' = MAX_OUTPUT_EXP cfg \<Longrightarrow>
   sum_items cfg' rs js st = sum_items cfg rs js st"
proof (induction js arbitrary: st)
  case Nil
  show ?case by simp
next
  case (Cons j js)
  obtain r0 b0 where st: "st = (r0, b0)" by (cases st)
  have f: "fmt_num cfg' (rs ! j) False = fmt_num cfg (rs ! j) False"
    using Cons.prems by (rule fmt_num_cfg)
  show ?case unfolding st using Cons.IH [OF Cons.prems] by (simp add: f)
qed

lemma bp_items_cfg:
  "MAX_OUTPUT_EXP cfg' = MAX_OUTPUT_EXP cfg \<Longrightarrow>
   bp_items cfg' rs n js b = bp_items cfg rs n js b"
proof (induction js arbitrary: b)
  case Nil
  show ?case by simp
next
  case (Cons j js)
  have f: "fmt_num cfg' (rs ! j) False = fmt_num cfg (rs ! j) False"
    using Cons.prems by (rule fmt_num_cfg)
  show ?case using Cons.IH [OF Cons.prems] by (simp add: f)
qed

lemma map_sum_ebind: "map_sum id f (ebind m k) = ebind m (\<lambda>x. map_sum id f (k x))"
  by (cases m) simp_all

lemma Dice_roll_LEN:
  "result_of (Dice_roll (cfg\<lparr>MAX_OUTPUT_LEN := L\<rparr>) d g) = result_of (Dice_roll cfg d g)"
proof -
  let ?cfg = "cfg\<lparr>MAX_OUTPUT_LEN := L\<rparr>"
  have e: "MAX_OUTPUT_EXP ?cfg = MAX_OUTPUT_EXP cfg" by simp
  show ?thesis
    unfolding result_of_def Dice_roll_def Let_def
    by (simp add: adv_items_cfg [OF e] sum_items_cfg [OF e] fmt_num_cfg [OF e] map_sum_ebind
        split_beta cong: if_cong list.case_cong)
qed

lemma FudgeDice_roll_LEN:
  "result_of (FudgeDice_roll (cfg\<lparr>MAX_OUTPUT_LEN := L\<rparr>) d g) = result_of (FudgeDice_roll cfg d g)"
proof -
  let ?cfg = "cfg\<lparr>MAX_OUTPUT_LEN := L\<rparr>"
  have e: "MAX_OUTPUT_EXP ?cfg = MAX_OUTPUT_EXP cfg" by simp
  show ?thesis
    unfolding result_of_def FudgeDice_roll_def Let_def
    by (simp add: fmt_num_cfg [OF e] map_sum_ebind split_beta cong: if_cong list.case_cong)
qed

lemma BonusPunishDice_roll_LEN:
  "result_of (BonusPunishDice_roll (cfg\<lparr>MAX_OUTPUT_LEN := L\<rparr>) d g)
   = result_of (BonusPunishDice_roll cfg d g)"
proof -
  let ?cfg = "cfg\<lparr>MAX_OUTPUT_LEN := L\<rparr>"
  have e: "MAX_OUTPUT_EXP ?cfg = MAX_OUTPUT_EXP cfg" by simp
  show ?thesis
    unfolding result_of_def BonusPunishDice_roll_def Let_def
    by (simp add: bp_items_cfg [OF e] fmt_num_cfg [OF e] map_sum_ebind split_beta cong: if_cong list.case_cong)
qed

lemma WODDice_roll_LEN:
  "map_option result_of (WODDice_roll (cfg\<lparr>MAX_OUTPUT_LEN := L\<rparr>) w g)
   = map_option result_of (WODDice_roll cfg w g)"
proof -
  let ?cfg = "cfg\<lparr>MAX_OUTPUT_LEN := L\<rparr>"
  have e: "MAX_OUTPUT_EXP ?cfg = MAX_OUTPUT_EXP cfg" by simp
  show ?thesis
    unfolding result_of_def WODDice_roll_def Let_def WOD_loop_cfg [OF e]
    by (simp add: fmt_num_cfg [OF e] map_sum_ebind split: option.splits sum.splits prod.splits)
qed

lemma DXDice_roll_LEN:
  "map_option result_of (DXDice_roll (cfg\<lparr>MAX_OUTPUT_LEN := L\<rparr>) w g)
   = map_option result_of (DXDice_roll cfg w g)"
proof -
  let ?cfg = "cfg\<lparr>MAX_OUTPUT_LEN := L\<rparr>"
  have e: "MAX_OUTPUT_EXP ?cfg = MAX_OUTPUT_EXP cfg" by simp
  show ?thesis
    unfolding result_of_def DXDice_roll_def Let_def DX_loop_cfg [OF e]
    by (simp add: fmt_num_cfg [OF e] map_sum_ebind split: option.splits sum.splits prod.splits)
qed

subsection \<open>Sources with the same sequence\<close>

lemma choices_eq:
  "choices n seq g =
     (map (\<lambda>x. seq ! nat (x mod int (length seq))) (drawn g 0 n),
      g\<lparr>consumed := consumed g + n\<rparr>)"
proof (induction n arbitrary: g)
  case 0
  show ?case by simp
next
  case (Suc n)
  have d: "drawn (g\<lparr>consumed := Suc (consumed g)\<rparr>) 0 n = drawn g (Suc 0) n"
    using drawn_advance [of g 1 0 n] by simp
  show ?case
    by (simp add: Suc choice_def drawn_Suc d)
qed

lemma same_seq_sym: "same_seq g g' \<Longrightarrow> same_seq g' g"
  unfolding same_seq_def by simp

lemma same_seq_next: "same_seq g g' \<Longrightarrow> feed g (consumed g) = feed g' (consumed g')"
  unfolding same_seq_def by (metis add.right_neutral)

lemma same_seq_Suc:
  "same_seq g g' \<Longrightarrow>
   same_seq (g\<lparr>consumed := Suc (consumed g)\<rparr>) (g'\<lparr>consumed := Suc (consumed g')\<rparr>)"
  using same_seq_advance [of g g' 1] by simp

lemma Dice_roll_same_seq:
  assumes "same_seq g g'"
  shows "fst (Dice_roll cfg d g) = fst (Dice_roll cfg d g')"
  unfolding Dice_roll_def Let_def fst_conv randints_drawn same_seq_drawn [OF assms]
  by (rule refl)

lemma FudgeDice_roll_same_seq:
  assumes "same_seq g g'"
  shows "fst (FudgeDice_roll cfg d g) = fst (FudgeDice_roll cfg d g')"
  unfolding FudgeDice_roll_def Let_def fst_conv choices_eq same_seq_drawn [OF assms]
  by (rule refl)

lemma BonusPunishDice_roll_same_seq:
  assumes "same_seq g g'"
  shows "fst (BonusPunishDice_roll cfg d g) = fst (BonusPunishDice_roll cfg d g')"
proof -
  have 1: "fst (randint 1 100 g) = fst (randint 1 100 g')"
    using same_seq_next [OF assms] by (simp add: randint_def)
  have 2: "drawn (snd (randint 1 100 g)) 0 n = drawn (snd (randint 1 100 g')) 0 n" for n
    using same_seq_drawn [OF same_seq_Suc [OF assms]] by (simp add: randint_def)
  show ?thesis
    unfolding BonusPunishDice_roll_def Let_def fst_conv randints_drawn 1 2
    by (rule refl)
qed

lemma WOD_loop_same_seq:
  assumes "same_seq g g'" and "WOD_loop cfg w n c b g = Some r"
  shows "\<exists>r'. WOD_loop cfg w n c b g' = Some r' \<and> fst r = fst r' \<and> same_seq (snd r) (snd r')"
proof (rule WOD_loop_rel [where R = "\<lambda>(c, b, g) (c', b', g'). c = c' \<and> b = b' \<and> same_seq g g'"
      and Q = "\<lambda>r r'. fst r = fst r' \<and> same_seq (snd r) (snd r')", OF assms(2)], goal_cases)
  case 1
  show ?case using assms(1) by simp
next
  case (2 n c b g c' b' g')
  then have s: "same_seq g g'" and eq: "c' = c" "b' = b" by simp_all
  show ?case
    unfolding WOD_round_eq eq same_seq_drawn [OF s]
    using same_seq_advance [OF s, of "nat n"]
    by (simp split: sum.splits prod.splits)
next
  case (3 c b g c' b' g')
  then show ?case by simp
qed

lemma DX_loop_same_seq:
  assumes "same_seq g g'" and "DX_loop cfg w n k l b g = Some r"
  shows "\<exists>r'. DX_loop cfg w n k l b g' = Some r' \<and> fst r = fst r' \<and> same_seq (snd r) (snd r')"
proof (rule DX_loop_rel [where R = "\<lambda>(k, l, b, g) (k', l', b', g'). k = k' \<and> l = l' \<and> b = b' \<and> same_seq g g'"
      and Q = "\<lambda>r r'. fst r = fst r' \<and> same_seq (snd r) (snd r')", OF assms(2)], goal_cases)
  case 1
  show ?case using assms(1) by simp
next
  case (2 n k l b g k' l' b' g')
  then have s: "same_seq g g'" and eq: "k' = k" "l' = l" "b' = b" by simp_all
  show ?case
    unfolding DX_round_eq eq same_seq_drawn [OF s]
    using same_seq_advance [OF s, of "nat n"]
    by (simp split: sum.splits prod.splits)
next
  case (3 k l b g k' l' b' g')
  then show ?case by simp
qed

lemma WODDice_roll_same_seq_le:
  assumes "same_seq g g'" and "WODDice_roll cfg w g = Some r"
  shows "\<exists>r'. WODDice_roll cfg w g' = Some r' \<and> fst r = fst r'"
proof -
  from assms(2) obtain q where q: "WOD_loop cfg w (wcount w) 0 ''=['' g = Some q"
    unfolding WODDice_roll_def by (cases "WOD_loop cfg w (wcount w) 0 ''=['' g") simp_all
  from WOD_loop_same_seq [OF assms(1) q] obtain q'
    where q': "WOD_loop cfg w (wcount w) 0 ''=['' g' = Some q'" and f: "fst q = fst q'" by blast
  obtain a h where qa: "q = (a, h)" by (cases q)
  obtain h' where qa': "q' = (a, h')" using f qa by (cases q') simp
  show ?thesis
    using assms(2) unfolding WODDice_roll_def q q' qa qa'
    by (cases a) (auto simp: Let_def)
qed

lemma DXDice_roll_same_seq_le:
  assumes "same_seq g g'" and "DXDice_roll cfg w g = Some r"
  shows "\<exists>r'. DXDice_roll cfg w g' = Some r' \<and> fst r = fst r'"
proof -
  from assms(2) obtain q where q: "DX_loop cfg w (xcount w) 0 None ''=['' g = Some q"
    unfolding DXDice_roll_def by (cases "DX_loop cfg w (xcount w) 0 None ''=['' g") simp_all
  from DX_loop_same_seq [OF assms(1) q] obtain q'
    where q': "DX_loop cfg w (xcount w) 0 None ''=['' g' = Some q'" and f: "fst q = fst q'" by blast
  obtain a h where qa: "q = (a, h)" by (cases q)
  obtain h' where qa': "q' = (a, h')" using f qa by (cases q') simp
  show ?thesis
    using assms(2) unfolding DXDice_roll_def q q' qa qa'
    by (cases a) (auto simp: Let_def)
qed

lemma map_option_eqI:
  assumes "\<And>r. x = Some r \<Longrightarrow> \<exists>r'. y = Some r' \<and> f r = f r'"
    and "\<And>r. y = Some r \<Longrightarrow> \<exists>r'. x = Some r' \<and> f r = f r'"
  shows "map_option f x = map_option f y"
proof (cases x)
  case None
  then show ?thesis using assms(2) by (cases y) auto
next
  case (Some r)
  then show ?thesis using assms(1) by auto
qed

lemma WODDice_roll_same_seq:
  assumes "same_seq g g'"
  shows "map_option fst (WODDice_roll cfg w g) = map_option fst (WODDice_roll cfg w g')"
  by (rule map_option_eqI)
     (erule WODDice_roll_same_seq_le [OF assms], erule WODDice_roll_same_seq_le [OF same_seq_sym [OF assms]])

lemma DXDice_roll_same_seq:
  assumes "same_seq g g'"
  shows "map_option fst (DXDice_roll cfg w g) = map_option fst (DXDice_roll cfg w g')"
  by (rule map_option_eqI)
     (erule DXDice_roll_same_seq_le [OF assms], erule DXDice_roll_same_seq_le [OF same_seq_sym [OF assms]])

subsection \<open>The item-count limit\<close>

lemma FudgeDice_roll_CNT:
  "result_of (FudgeDice_roll (cfg\<lparr>MAX_OUTPUT_CNT := M\<rparr>) d g) = result_of (FudgeDice_roll cfg d g)"
proof -
  let ?cfg = "cfg\<lparr>MAX_OUTPUT_CNT := M\<rparr>"
  have e: "MAX_OUTPUT_EXP ?cfg = MAX_OUTPUT_EXP cfg" by simp
  show ?thesis
    unfolding result_of_def FudgeDice_roll_def Let_def fmt_num_cfg [OF e]
    by (simp add: map_sum_ebind)
qed

lemma WODDice_roll_CNT:
  "map_option result_of (WODDice_roll (cfg\<lparr>MAX_OUTPUT_CNT := M\<rparr>) w g)
   = map_option result_of (WODDice_roll cfg w g)"
proof -
  let ?cfg = "cfg\<lparr>MAX_OUTPUT_CNT := M\<rparr>"
  have e: "MAX_OUTPUT_EXP ?cfg = MAX_OUTPUT_EXP cfg" by simp
  show ?thesis
    unfolding result_of_def WODDice_roll_def Let_def WOD_loop_cfg [OF e] fmt_num_cfg [OF e]
    by (simp add: map_sum_ebind split: option.splits sum.splits prod.splits)
qed

lemma DXDice_roll_CNT:
  "map_option result_of (DXDice_roll (cfg\<lparr>MAX_OUTPUT_CNT := M\<rparr>) w g)
   = map_option result_of (DXDice_roll cfg w g)"
proof -
  let ?cfg = "cfg\<lparr>MAX_OUTPUT_CNT := M\<rparr>"
  have e: "MAX_OUTPUT_EXP ?cfg = MAX_OUTPUT_EXP cfg" by simp
  show ?thesis
    unfolding result_of_def DXDice_roll_def Let_def DX_loop_cfg [OF e] fmt_num_cfg [OF e]
    by (simp add: map_sum_ebind split: option.splits sum.splits prod.splits)
qed

lemma ebind_rel:
  assumes "rel_sum (=) R m m'" and "\<And>x x'. R x x' \<Longrightarrow> rel_sum (=) S (k x) (k' x')"
  shows "rel_sum (=) S (ebind m k) (ebind m' k')"
  using assms by (cases m; cases m') auto

lemma rel_sum_map_sum:
  "rel_sum (=) (\<lambda>a b. f a = f b) x y \<Longrightarrow> map_sum id f x = map_sum id f y"
  by (cases x; cases y) auto

lemma rel_sum_same: "(\<And>x. m = Inr x \<Longrightarrow> R x x) \<Longrightarrow> rel_sum (=) R m m"
  by (cases m) auto

lemma Dice_roll_CNT:
  "result_of (Dice_roll (cfg\<lparr>MAX_OUTPUT_CNT := M\<rparr>) d g) = result_of (Dice_roll cfg d g)"
proof -
  let ?cfg = "cfg\<lparr>MAX_OUTPUT_CNT := M\<rparr>"
  have e: "MAX_OUTPUT_EXP ?cfg = MAX_OUTPUT_EXP cfg" by simp
  have "rel_sum (=) (\<lambda>a b. result a = result b) (fst (Dice_roll ?cfg d g)) (fst (Dice_roll cfg d g))"
    unfolding Dice_roll_def Let_def fst_conv adv_items_cfg [OF e] sum_items_cfg [OF e]
      fmt_num_cfg [OF e]
  proof (rule ebind_rel [where R = "\<lambda>p q. snd p = snd q"], goal_cases)
    case 1
    show ?case
      by (auto intro!: ebind_rel [where R = "(=)"] rel_sum_same)
  next
    case (2 p q)
    obtain o1 dr where p: "p = (o1, dr)" by (cases p)
    obtain o2 where q: "q = (o2, dr)" using 2 p by (cases q) simp
    show ?case unfolding p q prod.case
    proof (rule ebind_rel [where R = "\<lambda>p q. fst p = fst q"], goal_cases)
      case 1
      show ?case
        by (auto intro!: ebind_rel [where R = "(=)"] rel_sum_same split: list.splits)
    next
      case (2 p q)
      obtain r o3 where p: "p = (r, o3)" by (cases p)
      obtain o4 where q: "q = (r, o4)" using 2 p by (cases q) simp
      show ?case unfolding p q prod.case
        by (auto intro!: ebind_rel [where R = "(=)"] rel_sum_same)
    qed
  qed
  then have "map_sum id result (fst (Dice_roll ?cfg d g)) = map_sum id result (fst (Dice_roll cfg d g))"
    by (rule rel_sum_map_sum)
  moreover have "snd (Dice_roll ?cfg d g) = snd (Dice_roll cfg d g)"
    unfolding Dice_roll_def Let_def by simp
  ultimately show ?thesis unfolding result_of_def by simp
qed

lemma BonusPunishDice_roll_CNT:
  assumes digits: "\<forall>x\<in>set (drawn g 1 (nat (bcount d))). 0 \<le> x \<and> x \<le> 9"
  shows "result_of (BonusPunishDice_roll (cfg\<lparr>MAX_OUTPUT_CNT := M\<rparr>) d g)
         = result_of (BonusPunishDice_roll cfg d g)"
proof -
  let ?cfg = "cfg\<lparr>MAX_OUTPUT_CNT := M\<rparr>"
  define ds where "ds = fst (randints (nat (bcount d)) 0 9 (snd (randint 1 100 g)))"
  have e: "MAX_OUTPUT_EXP ?cfg = MAX_OUTPUT_EXP cfg" by simp
  have ds: "ds = drawn g 1 (nat (bcount d))"
    unfolding ds_def drawn_def randints_eq randint_def by simp
  have len: "length ds = nat (bcount d)" unfolding ds drawn_def by simp
  have items: "\<exists>b'. bp_items cfg ds (bcount d) [0..<nat (bcount d)] ''=['' = Inr b'"
  proof (rule bp_items_total)
    fix i assume "i \<in> set [0..<nat (bcount d)]"
    then have "ds ! i \<in> set ds" using len by simp
    then have "0 \<le> ds ! i \<and> ds ! i \<le> 9" using digits unfolding ds by blast
    moreover have "(9::int) < 2 ^ 1024 - 2 ^ 970" by simp
    ultimately have "\<bar>ds ! i\<bar> < 2 ^ 1024 - 2 ^ 970" by linarith
    then show "\<exists>s. fmt_num cfg (ds ! i) False = Inr s" by (rule fmt_num_total)
  qed
  have "rel_sum (=) (\<lambda>a b. result a = result b)
          (fst (BonusPunishDice_roll ?cfg d g)) (fst (BonusPunishDice_roll cfg d g))"
    unfolding BonusPunishDice_roll_def Let_def fst_conv bp_items_cfg [OF e] fmt_num_cfg [OF e]
      ds_def [symmetric]
  proof (rule ebind_rel [where R = "(=)"], goal_cases)
    case 1
    show ?case by (rule rel_sum_same) simp
  next
    case (2 x x')
    then have x: "x' = x" by simp
    show ?case unfolding x
    proof (rule ebind_rel [where R = "\<lambda>a b. True"], goal_cases)
      case 1
      show ?case
      proof (cases "bcount d > 1")
        case True
        then show ?thesis using items by auto
      next
        case False
        then show ?thesis by (auto intro!: rel_sum_same)
      qed
    next
      case (2 a b)
      show ?case
        by (auto intro!: ebind_rel [where R = "(=)"] rel_sum_same)
    qed
  qed
  then have "map_sum id result (fst (BonusPunishDice_roll ?cfg d g))
             = map_sum id result (fst (BonusPunishDice_roll cfg d g))"
    by (rule rel_sum_map_sum)
  moreover have "snd (BonusPunishDice_roll ?cfg d g) = snd (BonusPunishDice_roll cfg d g)"
    unfolding BonusPunishDice_roll_def Let_def by simp
  ultimately show ?thesis unfolding result_of_def by simp
qed

lemma Dice_roll_placeholder:
  assumes "adv d = 0" and "MAX_OUTPUT_CNT cfg < count d" and "1 < count d"
    and "fst (Dice_roll cfg d g) = Inr d'"
  shows "\<exists>s. fmt_num cfg (result d') True = Inr s \<and>
             detail d' = too_long cfg (code d @ output_too_long (count d) @ ''='' @ s)"
proof -
  have "1 < length (fst (randints (nat (count d)) 1 (sides d) g))"
    using assms(3) by (simp add: length_randints)
  then show ?thesis
    using assms unfolding Dice_roll_def Let_def
    by (auto simp: ebind_eq_Inr)
qed

lemma Dice_roll_placeholder_adv:
  assumes "adv d \<noteq> 0" and "MAX_OUTPUT_CNT cfg \<le> count d"
    and "fst (Dice_roll cfg d g) = Inr d'"
  shows "\<exists>rest. detail d' = too_long cfg (code d @ output_too_long (count d) @ rest)"
  using assms unfolding Dice_roll_def Let_def
  by (auto simp: ebind_eq_Inr split: if_splits list.splits)

lemma FudgeDice_roll_placeholder:
  assumes "MAX_OUTPUT_CNT cfg < fcount f" and "fst (FudgeDice_roll cfg f g) = Inr f'"
  shows "\<exists>s. fmt_num cfg (result f') True = Inr s \<and>
             detail f' = too_long cfg (output_too_long (fcount f) @ ''='' @ s)"
  using assms unfolding FudgeDice_roll_def Let_def
  by (auto simp: ebind_eq_Inr)

lemma BonusPunishDice_roll_placeholder:
  assumes "1 < bcount b" and "MAX_OUTPUT_CNT cfg \<le> bcount b"
    and "fst (BonusPunishDice_roll cfg b g) = Inr b'"
  shows "\<exists>s. fmt_num cfg (result b') True = Inr s \<and>
             detail b' = too_long cfg (''D100='' @ str_int (feed g (consumed g)) @ '', '' @ code b
                            @ output_too_long (bcount b) @ ''='' @ s)"
  using assms unfolding BonusPunishDice_roll_def Let_def
  by (auto simp: ebind_eq_Inr randint_def)

lemma WODDice_roll_placeholder:
  assumes "MAX_OUTPUT_CNT cfg \<le> wcount w" and "WODDice_roll cfg w g = Some (Inr w', g')"
  shows "\<exists>s. fmt_num cfg (result w') True = Inr s \<and>
             detail w' = too_long cfg (code w @ output_too_long (wcount w) @ ''='' @ s)"
  using assms unfolding WODDice_roll_def Let_def
  by (auto simp: ebind_eq_Inr split: option.splits sum.splits prod.splits)

lemma DXDice_roll_placeholder:
  assumes "MAX_OUTPUT_CNT cfg \<le> xcount x" and "DXDice_roll cfg x g = Some (Inr x', g')"
  shows "\<exists>s. fmt_num cfg (result x') True = Inr s \<and>
             detail x' = too_long cfg (code x @ output_too_long (xcount x) @ ''='' @ s)"
  using assms unfolding DXDice_roll_def Let_def
  by (auto simp: ebind_eq_Inr split: option.splits sum.splits prod.splits)

lemma placeholder_detail_iff:
  "placeholder_detail cfg front cnt res dt \<longleftrightarrow>
     (\<exists>s. fmt_num cfg res True = Inr s \<and>
          dt = too_long cfg (front @ output_too_long cnt @ ''='' @ s))"
  unfolding placeholder_detail_def by (cases "fmt_num cfg res True") auto

lemma FudgeDice_roll_itemized:
  assumes "fcount f \<le> MAX_OUTPUT_CNT cfg" and "fst (FudgeDice_roll cfg f g) = Inr f'"
  shows "\<exists>s. fmt_num cfg (result f') True = Inr s \<and>
             detail f' = too_long cfg
               (replace ''D'' [] (code f) @ ''=['' @
                join '', '' (map (\<lambda>v. [''-'', ''0'', ''+''] ! nat (v mod 3))
                                (drawn g 0 (nat (fcount f)))) @ '']'' @ ''='' @ s)"
  using assms unfolding FudgeDice_roll_def Let_def choices_eq
  by (auto simp: ebind_eq_Inr)

subsection \<open>The success count of the Exploding Pool\<close>

lemma length_filter_mono:
  "(\<And>x. x \<in> set xs \<Longrightarrow> P x \<Longrightarrow> Q x) \<Longrightarrow> length (filter P xs) \<le> length (filter Q xs)"
  by (induction xs) auto

lemma is_success_mono:
  assumes "s' \<le> success_line w" and "s' \<noteq> 0" and "is_success w v"
  shows "is_success (w\<lparr>success_line := s'\<rparr>) v"
  using assms unfolding is_success_def by auto

lemma WOD_loop_success_mono:
  assumes le: "s' \<le> success_line w" and nz: "s' \<noteq> 0"
    and run: "WOD_loop cfg w n c b g = Some r"
    and c: "0 \<le> c" "c \<le> c'"
  shows "\<exists>r'. WOD_loop cfg (w\<lparr>success_line := s'\<rparr>) n c' b' g = Some r' \<and> snd r' = snd r \<and>
           (case (fst r, fst r') of
              (Inl e, Inl e') \<Rightarrow> e' = e
            | (Inr (c1, b1), Inr (c1', b1')) \<Rightarrow> 0 \<le> c1 \<and> c1 \<le> c1'
            | _ \<Rightarrow> False)"
proof -
  let ?w' = "w\<lparr>success_line := s'\<rparr>"
  let ?R = "\<lambda>(c, b, g) (c', b', g'). 0 \<le> c \<and> c \<le> (c'::int) \<and> g' = (g::rng)"
  let ?Q = "\<lambda>r r'. snd r' = (snd r :: rng) \<and>
           (case (fst r, fst r') of
              (Inl e, Inl e') \<Rightarrow> e' = (e::error)
            | (Inr (c1, b1 :: string), Inr (c1', b1' :: string)) \<Rightarrow> (0::int) \<le> c1 \<and> c1 \<le> c1'
            | _ \<Rightarrow> False)"
  have "\<exists>r'. WOD_loop cfg ?w' n c' b' g = Some r' \<and> ?Q r r'"
  proof (rule WOD_loop_rel [where R = ?R and Q = ?Q, OF run], goal_cases)
    case 1
    show ?case using c by simp
  next
    case (2 n c b g c' b' g')
    then have g': "g' = g" and c: "0 \<le> c" "c \<le> c'" by simp_all
    let ?xs = "drawn g 0 (nat n)"
    have ex: "filter (explodes ?w') ?xs = filter (explodes w) ?xs"
      by (rule filter_cong) (simp_all add: explodes_def)
    have su: "length (filter (is_success w) ?xs) \<le> length (filter (is_success ?w') ?xs)"
      by (rule length_filter_mono) (rule is_success_mono [OF le nz])
    show ?case
      using WOD_round_cases [of cfg w n c b g] WOD_round_cases [of cfg ?w' n c' b' g] c su
      unfolding g' ex
      by (auto split: sum.splits prod.splits)
  next
    case (3 c b g c' b' g')
    then show ?case by simp
  qed
  then show ?thesis by simp
qed

lemmas wod_parse_eval = WODDice_init_def WODDice_get_args_def upper_def upper_char_def
  digits_prefix_def digits_rest_def opt_group_def opt_rest_def default_group_def
  checked_int_def isint_def py_int_def is_digit_def nat_of_digits_def digit_val_def Let_def
  default_config_def

lemmas wod_roll_eval = WOD_round_def randint_def replay_def fmt_eval slice_to_def too_long_def

subsection \<open>Termination of the exploding loops\<close>

lemma filter_nonempty_drawn:
  assumes "filter P (drawn g 0 n) \<noteq> []"
  shows "\<exists>i<n. P (feed g (consumed g + i))"
proof -
  from assms obtain v where "v \<in> set (drawn g 0 n)" and "P v"
    by (metis filter_False)
  then show ?thesis unfolding drawn_def by auto
qed

lemma WOD_loop_terminates:
  assumes "wadd_line w = 0 \<or> (\<forall>i\<ge>N. feed g i < wadd_line w)"
  shows "\<exists>r. WOD_loop cfg w n c b g = Some r"
  using assms
proof (induction "N - consumed g" arbitrary: n c b g rule: less_induct)
  case less
  show ?case
  proof (cases "n = 0")
    case True
    then show ?thesis by (subst WOD_loop.simps) simp
  next
    case False
    obtain a g1 where r: "WOD_round cfg w n c b g = (a, g1)" by (cases "WOD_round cfg w n c b g")
    note rc = WOD_round_cases [of cfg w n c b g, unfolded r fst_conv snd_conv]
    have g1: "g1 = g\<lparr>consumed := consumed g + nat n\<rparr>" using rc by simp
    show ?thesis
    proof (cases a)
      case (Inl e)
      then show ?thesis using False r by (subst WOD_loop.simps) simp
    next
      case (Inr t)
      obtain ex c1 b1 where t: "t = (ex, c1, b1)" by (cases t)
      have ex: "ex = int (length (filter (explodes w) (drawn g 0 (nat n))))"
        using rc Inr t by simp
      have step: "WOD_loop cfg w n c b g = WOD_loop cfg w ex c1 b1 g1"
        using False r Inr t by (subst WOD_loop.simps) simp
      show ?thesis
      proof (cases "ex = 0")
        case True
        then show ?thesis unfolding step by (subst WOD_loop.simps) simp
      next
        case nz: False
        then have "filter (explodes w) (drawn g 0 (nat n)) \<noteq> []" using ex by auto
        from filter_nonempty_drawn [OF this]
        obtain i where i: "i < nat n" "explodes w (feed g (consumed g + i))" by blast
        then have a: "wadd_line w \<noteq> 0" "wadd_line w \<le> feed g (consumed g + i)"
          unfolding explodes_def by simp_all
        with less.prems have "\<not> N \<le> consumed g + i" by force
        then have "N - consumed g1 < N - consumed g" using i(1) unfolding g1 by simp
        moreover have "wadd_line w = 0 \<or> (\<forall>i\<ge>N. feed g1 i < wadd_line w)"
          using less.prems unfolding g1 by simp
        ultimately show ?thesis unfolding step by (rule less.hyps)
      qed
    qed
  qed
qed

lemma DX_loop_terminates:
  assumes "\<forall>i\<ge>N. feed g i < xadd_line w"
  shows "\<exists>r. DX_loop cfg w n k l b g = Some r"
  using assms
proof (induction "N - consumed g" arbitrary: n k l b g rule: less_induct)
  case less
  show ?case
  proof (cases "n = 0")
    case True
    then show ?thesis by (subst DX_loop.simps) simp
  next
    case False
    obtain a g1 where r: "DX_round cfg w n b g = (a, g1)" by (cases "DX_round cfg w n b g")
    note rc = DX_round_cases [of cfg w n b g, unfolded r fst_conv snd_conv]
    have g1: "g1 = g\<lparr>consumed := consumed g + nat n\<rparr>" using rc by simp
    show ?thesis
    proof (cases a)
      case (Inl e)
      then show ?thesis using False r by (subst DX_loop.simps) simp
    next
      case (Inr t)
      obtain ex rs b1 where t: "t = (ex, rs, b1)" by (cases t)
      have ex: "ex = int (length (filter (\<lambda>x. x \<ge> xadd_line w) (drawn g 0 (nat n))))"
        using rc Inr t by simp
      have step: "DX_loop cfg w n k l b g = DX_loop cfg w ex (k + 1) (Some rs) b1 g1"
        using False r Inr t by (subst DX_loop.simps) simp
      show ?thesis
      proof (cases "ex = 0")
        case True
        then show ?thesis unfolding step by (subst DX_loop.simps) simp
      next
        case nz: False
        then have "filter (\<lambda>x. x \<ge> xadd_line w) (drawn g 0 (nat n)) \<noteq> []" using ex by auto
        from filter_nonempty_drawn [OF this]
        obtain i where i: "i < nat n" "xadd_line w \<le> feed g (consumed g + i)" by blast
        with less.prems have "\<not> N \<le> consumed g + i" by force
        then have "N - consumed g1 < N - consumed g" using i(1) unfolding g1 by simp
        moreover have "\<forall>i\<ge>N. feed g1 i < xadd_line w"
          using less.prems unfolding g1 by simp
        ultimately show ?thesis unfolding step by (rule less.hyps)
      qed
    qed
  qed
qed

lemma first_error_None:
  "(\<And>v. v \<in> set xs \<Longrightarrow> \<exists>s. fmt_num cfg v False = Inr s) \<Longrightarrow> first_error cfg xs = None"
proof (induction xs)
  case Nil
  show ?case by simp
next
  case (Cons a xs)
  obtain s where "fmt_num cfg a False = Inr s" using Cons.prems [of a] by auto
  moreover have "first_error cfg xs = None" by (rule Cons.IH) (simp add: Cons.prems)
  ultimately show ?case by simp
qed

lemma DX_loop_diverges:
  assumes all: "\<And>i. xadd_line w \<le> feed g i"
    and fmt: "\<And>i. \<exists>s. fmt_num cfg (feed g i) False = Inr s"
    and n: "0 < n"
  shows "DX_loop cfg w n k l b g = None"
proof (rule ccontr)
  assume "DX_loop cfg w n k l b g \<noteq> None"
  then obtain r where run: "DX_loop cfg w n k l b g = Some r" by auto
  let ?P = "\<lambda>cfg0 w0 n (k::int) (l::int list option) (b::string) g0
              (r :: (error + int \<times> int list option \<times> string) \<times> rng).
              cfg0 = cfg \<and> w0 = w \<and> 0 < n \<and> feed g0 = feed g \<longrightarrow> False"
  have "?P cfg w n k l b g r"
  proof (rule DX_loop.raw_induct [where P = ?P, OF _ run], goal_cases)
    case (1 loop cfg0 w0 n k l b g0 r)
    show ?case
    proof (intro impI, elim conjE)
      assume eq: "cfg0 = cfg" "w0 = w" and n: "0 < n" and fd: "feed g0 = feed g"
      obtain a g1 where rd: "DX_round cfg w n b g0 = (a, g1)" by (cases "DX_round cfg w n b g0")
      note rc = DX_round_cases [of cfg w n b g0, unfolded rd fst_conv snd_conv]
      have g1: "g1 = g0\<lparr>consumed := consumed g0 + nat n\<rparr>" using rc by simp
      have vals: "v \<in> set (drawn g0 0 (nat n)) \<Longrightarrow> \<exists>i. v = feed g i" for v
        unfolding drawn_def fd by auto
      have fe: "first_error cfg (drawn g0 0 (nat n)) = None"
        by (rule first_error_None) (use vals fmt in blast)
      then obtain ex rs b1 where a: "a = Inr (ex, rs, b1)" using rc by (cases a) auto
      have "filter (\<lambda>x. x \<ge> xadd_line w) (drawn g0 0 (nat n)) = drawn g0 0 (nat n)"
        using vals all by (auto simp: filter_id_conv)
      then have ex: "ex = n" using rc a n by simp
      have "loop cfg w ex (k + 1) (Some rs) b1 g1 = Some r"
        using 1(2) n rd a eq by simp
      from 1(1) [OF this] show False using ex n g1 fd by simp
    qed
  qed
  then show False using n by simp
qed

lemmas dx_parse_eval = DXDice_init_def DXDice_get_args_def upper_def upper_char_def
  digits_prefix_def digits_rest_def opt_group_def opt_rest_def default_group_def
  checked_int_def isint_def py_int_def is_digit_def nat_of_digits_def digit_val_def Let_def
  default_config_def

lemmas dx_roll_eval = DX_round_def randint_def replay_def fmt_eval slice_to_def too_long_def
  py_max_def

subsection \<open>The rounds of a Double-Cross roll\<close>

lemma DX_rounds_props:
  assumes "DX_rounds fuel x n g = Some (j, rs)" and "0 < n"
  shows "1 \<le> j \<and> rs \<noteq> [] \<and> (\<forall>v\<in>set rs. \<exists>i. v = feed g i)"
  using assms
proof (induction fuel arbitrary: n g j rs)
  case 0
  then show ?case by simp
next
  case (Suc fuel)
  let ?xs = "drawn g 0 n"
  let ?m = "length (filter (\<lambda>v. v \<ge> xadd_line x) ?xs)"
  show ?case
  proof (cases "?m = 0")
    case True
    then have "j = 1" "rs = ?xs" using Suc.prems(1) by (simp_all add: Let_def)
    moreover have "?xs \<noteq> []" using Suc.prems(2) by (auto simp: drawn_def)
    moreover have "\<forall>v\<in>set ?xs. \<exists>i. v = feed g i" unfolding drawn_def by auto
    ultimately show ?thesis by simp
  next
    case False
    then obtain j0 where r: "DX_rounds fuel x ?m (g\<lparr>consumed := consumed g + n\<rparr>) = Some (j0, rs)"
      and j: "j = Suc j0"
      using Suc.prems(1) by (auto simp: Let_def)
    from Suc.IH [OF r] False show ?thesis using j by simp
  qed
qed

lemma DX_loop_rounds:
  assumes run: "DX_loop cfg x n k l b g = Some (Inr (k', l', b'), g')" and n: "0 < n"
  shows "\<exists>fuel j rs. DX_rounds fuel x (nat n) g = Some (j, rs) \<and> k' = k + int j \<and> l' = Some rs"
proof -
  let ?G = "\<lambda>n k g k' l'. \<exists>fuel j rs. DX_rounds fuel x (nat n) g = Some (j, rs) \<and>
               k' = k + int j \<and> l' = Some rs"
  let ?P = "\<lambda>cfg0 x0 n (k::int) (l::int list option) (b::string) g
              (r :: (error + int \<times> int list option \<times> string) \<times> rng).
      cfg0 = cfg \<and> x0 = x \<longrightarrow>
      (\<forall>k' l' b' g'. r = (Inr (k', l', b'), g') \<longrightarrow>
         (if n = 0 then k' = k \<and> l' = l else if n < 0 then True else ?G n k g k' l'))"
  have "?P cfg x n k l b g (Inr (k', l', b'), g')"
  proof (rule DX_loop.raw_induct [where P = ?P, OF _ run], goal_cases)
    case (1 loop cfg0 x0 n k l b g r)
    show ?case
    proof (intro impI allI, elim conjE)
      fix k' l' b' g'
      assume eq: "cfg0 = cfg" "x0 = x" and r: "r = (Inr (k', l', b'), g')"
      consider "n = 0" | "n < 0" | "0 < n" by linarith
      then show "if n = 0 then k' = k \<and> l' = l else if n < 0 then True else ?G n k g k' l'"
      proof cases
        case 1
        then show ?thesis using \<open>(if n \<noteq> 0 then _ else _) = Some r\<close> r by simp
      next
        case 2
        then show ?thesis by simp
      next
        case 3
        obtain a g1 where rd: "DX_round cfg x n b g = (a, g1)" by (cases "DX_round cfg x n b g")
        note rc = DX_round_cases [of cfg x n b g, unfolded rd fst_conv snd_conv]
        have g1: "g1 = g\<lparr>consumed := consumed g + nat n\<rparr>" using rc by simp
        have body: "(case (a, g1) of
                       (Inl e, g1) \<Rightarrow> Some (Inl e, g1)
                     | (Inr (ex, rs, b1), g1) \<Rightarrow> loop cfg x ex (k + 1) (Some rs) b1 g1) = Some r"
          using \<open>(if n \<noteq> 0 then _ else _) = Some r\<close> 3 rd unfolding eq by simp
        then obtain ex rs b1 where a: "a = Inr (ex, rs, b1)" using r by (cases a) auto
        have rs: "rs = drawn g 0 (nat n)"
          and ex: "ex = int (length (filter (\<lambda>v. v \<ge> xadd_line x) (drawn g 0 (nat n))))"
          using rc a by simp_all
        have call: "loop cfg x ex (k + 1) (Some rs) b1 g1 = Some r" using body a by simp
        have ih: "if ex = 0 then k' = k + 1 \<and> l' = Some rs
                  else if ex < 0 then True else ?G ex (k + 1) g1 k' l'"
          using 1(1) [OF call] r by blast
        show ?thesis
        proof (cases "ex = 0")
          case True
          then have "DX_rounds (Suc 0) x (nat n) g = Some (1, rs)"
            using ex rs by (simp add: Let_def)
          moreover have "k' = k + int 1" "l' = Some rs" using ih True by simp_all
          ultimately have "?G n k g k' l'" by blast
          then show ?thesis using 3 by simp
        next
          case False
          then have pos: "0 < ex" using ex by simp
          with ih False obtain fuel j rs' where
            d: "DX_rounds fuel x (nat ex) g1 = Some (j, rs')" and k': "k' = k + 1 + int j"
            and l': "l' = Some rs'" by auto
          have "DX_rounds (Suc fuel) x (nat n) g = Some (Suc j, rs')"
            using d pos ex g1 by (simp add: Let_def)
          moreover have "k' = k + int (Suc j)" using k' by simp
          ultimately have "?G n k g k' l'" using l' by blast
          then show ?thesis using 3 by simp
        qed
      qed
    qed
  qed
  then show ?thesis using n by simp
qed

subsection \<open>The exceptions of a roll\<close>


lemma no_input_error_Inl [simp]: "no_input_error (Inl e) = (\<not> is_input_error e)"
  unfolding no_input_error_def by simp

























subsection \<open>What the constructors guarantee\<close>













subsection \<open>When the constructors raise\<close>



















subsection \<open>Claim C1: errors come before the draws\<close>




subsection \<open>Claim C9: the numeric formatter\<close>

text \<open>
  Within the range of the floats the formatter does what the claim says. \<^verbatim>\<open>fmt_num\<close>
  returns a string for every integer below \<open>2^1024 - 2^970\<close> in magnitude. Whenever it
  returns a string, the string is in exponent notation (it contains the letter \<open>e\<close>)
  exactly when the threshold \<open>MAX_OUTPUT_EXP\<close> is positive and
  \<open>\<bar>n\<bar> \<ge> 10 ^ MAX_OUTPUT_EXP\<close>, and it is the plain decimal \<^verbatim>\<open>str(n)\<close> otherwise; it
  starts with a parenthesis exactly when it is in exponent notation and \<open>sep\<close> is false
  (not the trailing \<open>=result\<close> position), and then it ends with one. With the default
  threshold 9, \<open>10^9\<close> is rendered \<open>1.000000000e+09\<close> (in parentheses without \<open>sep\<close>)
  and \<open>10^8\<close> is rendered \<open>100000000\<close>.
\<close>

theorem fmt_num_scientific:
  "(\<bar>n\<bar> < 2 ^ 1024 - 2 ^ 970 \<longrightarrow> (\<exists>s. fmt_num cfg n sep = Inr s)) \<and>
   (\<forall>s. fmt_num cfg n sep = Inr s \<longrightarrow>
      (CHR ''e'' \<in> set s \<longleftrightarrow> 0 < MAX_OUTPUT_EXP cfg \<and> 10 ^ nat (MAX_OUTPUT_EXP cfg) \<le> \<bar>n\<bar>) \<and>
      (CHR ''e'' \<notin> set s \<longrightarrow> s = str_int n) \<and>
      (hd s = CHR ''('' \<longleftrightarrow> CHR ''e'' \<in> set s \<and> \<not> sep) \<and>
      (hd s = CHR ''('' \<longrightarrow> last s = CHR '')'')) \<and>
   fmt_num default_config (10 ^ 9) False = Inr ''(1.000000000e+09)'' \<and>
   fmt_num default_config (10 ^ 9) True = Inr ''1.000000000e+09'' \<and>
   fmt_num default_config (10 ^ 8) sep = Inr ''100000000''"
proof (intro conjI allI impI)
  assume "\<bar>n\<bar> < 2 ^ 1024 - 2 ^ 970"
  then show "\<exists>s. fmt_num cfg n sep = Inr s" by (rule fmt_num_total)
next
  show "fmt_num default_config (10 ^ 9) False = Inr ''(1.000000000e+09)''"
    by (simp add: fmt_eval)
  show "fmt_num default_config (10 ^ 9) True = Inr ''1.000000000e+09''"
    by (simp add: fmt_eval)
  show "fmt_num default_config (10 ^ 8) sep = Inr ''100000000''"
    by (simp add: fmt_eval)
next
  fix s assume s: "fmt_num cfg n sep = Inr s"
  let ?sci = "0 < MAX_OUTPUT_EXP cfg \<and> 10 ^ nat (MAX_OUTPUT_EXP cfg) \<le> \<bar>n\<bar>"
  have plain: "s = str_int n" if "\<not> ?sci"
    using fmt_num_plain [OF that, of sep] s by simp
  have sci: "\<exists>x. s = (if sep then format_e (nat (MAX_OUTPUT_EXP cfg)) x
                else ''('' @ format_e (nat (MAX_OUTPUT_EXP cfg)) x @ '')'')" if "?sci"
  proof (cases "float_of_int n")
    case (Inl e)
    then show ?thesis using that s unfolding fmt_num_def by simp
  next
    case (Inr x)
    then show ?thesis using fmt_num_sci [of cfg n x sep] that s by auto
  qed
  show e_iff: "CHR ''e'' \<in> set s \<longleftrightarrow> ?sci"
  proof
    assume "CHR ''e'' \<in> set s"
    then show ?sci using plain str_int_no_e [of n] by blast
  next
    assume ?sci
    then obtain x where "s = (if sep then format_e (nat (MAX_OUTPUT_EXP cfg)) x
                else ''('' @ format_e (nat (MAX_OUTPUT_EXP cfg)) x @ '')'')" using sci by blast
    then show "CHR ''e'' \<in> set s" using format_e_has_e [of "nat (MAX_OUTPUT_EXP cfg)" x] by simp
  qed
  show "s = str_int n" if "CHR ''e'' \<notin> set s" using that e_iff plain by blast
  show p_iff: "hd s = CHR ''('' \<longleftrightarrow> CHR ''e'' \<in> set s \<and> \<not> sep"
  proof (cases ?sci)
    case False
    then have "s = str_int n" by (rule plain)
    then have "hd s \<noteq> CHR ''(''" and "CHR ''e'' \<notin> set s"
      using str_int_no_paren [of n] str_int_no_e [of n] by simp_all
    then show ?thesis by simp
  next
    case True
    then obtain x where x: "s = (if sep then format_e (nat (MAX_OUTPUT_EXP cfg)) x
                else ''('' @ format_e (nat (MAX_OUTPUT_EXP cfg)) x @ '')'')" using sci by blast
    have e: "CHR ''e'' \<in> set s" using True e_iff by simp
    show ?thesis
    proof (cases sep)
      case True
      then have "hd s \<noteq> CHR ''(''"
        using x format_e_no_paren [of "nat (MAX_OUTPUT_EXP cfg)" x] by simp
      then show ?thesis using True by simp
    next
      case False
      then have "hd s = CHR ''(''" using x by simp
      then show ?thesis using False e by simp
    qed
  qed
  show "last s = CHR '')''" if "hd s = CHR ''(''"
  proof -
    from that p_iff e_iff have ?sci and "\<not> sep" by simp_all
    then obtain x where "s = ''('' @ format_e (nat (MAX_OUTPUT_EXP cfg)) x @ '')''"
      using sci by auto
    then show ?thesis by simp
  qed
qed

theorem fmt_num_scientific_witness:
  "\<bar>10 ^ 9 :: int\<bar> < 2 ^ 1024 - 2 ^ 970 \<and>
   fmt_num default_config (10 ^ 9) False = Inr ''(1.000000000e+09)'' \<and>
   CHR ''e'' \<in> set ''(1.000000000e+09)'' \<and>
   hd ''(1.000000000e+09)'' = CHR ''('' \<and> last ''(1.000000000e+09)'' = CHR '')''"
  using fmt_num_scientific [of "10 ^ 9" default_config False] by simp

text \<open>
  Claim C9. The formatter renders an integer \<open>n\<close> in scientific notation exactly when
  the threshold is positive and \<open>\<bar>n\<bar> \<ge> 10 ^ MAX_OUTPUT_EXP\<close>, and as a plain decimal
  otherwise. The code misses this for the integers that do not fit a float: for
  \<open>n = 2^1024\<close> and the default threshold 9 the condition holds, and the conversion
  to a float inside the exponent format raises \<^verbatim>\<open>OverflowError\<close> instead of
  rendering \<open>n\<close>.
\<close>

theorem fmt_num_raises_OverflowError:
  "0 < MAX_OUTPUT_EXP default_config \<and>
   10 ^ nat (MAX_OUTPUT_EXP default_config) \<le> \<bar>2 ^ 1024 :: int\<bar> \<and>
   fmt_num default_config (2 ^ 1024) True = Inl OverflowError \<and>
   fmt_num default_config (2 ^ 1024) False = Inl OverflowError"
proof (intro conjI)
  show "0 < MAX_OUTPUT_EXP default_config" by (simp add: default_config_def)
  have "(10::int) ^ 9 \<le> 2 ^ 1024" by simp
  then show "10 ^ nat (MAX_OUTPUT_EXP default_config) \<le> \<bar>2 ^ 1024 :: int\<bar>"
    by (simp add: default_config_def)
  show "fmt_num default_config (2 ^ 1024) True = Inl OverflowError" by (rule fmt_num_huge)
  show "fmt_num default_config (2 ^ 1024) False = Inl OverflowError" by (rule fmt_num_huge)
qed

subsection \<open>Claim C2: the Standard Pool without keep or drop\<close>

text \<open>
  Within the range of the floats the roll does what the claim says. For a \<^verbatim>\<open>Dice\<close>
  object with \<open>count \<ge> 1\<close> and no keep or drop (\<open>adv = 0\<close>), and a source whose \<open>count\<close>
  draws lie in \<open>[1, sides]\<close>: an evaluation that returns has its result in
  \<open>[count, count * sides]\<close>, and the evaluation does return whenever
  \<open>count * sides < 2^1024 - 2^970\<close> (every number it formats converts to a float). The
  notation \<open>2D6\<close> with the draws 3 and 5 gives the result 8 and the detail
  \<open>2D6=[3+5]=8\<close>.
\<close>

theorem Dice_roll_range:
  assumes adv: "adv d = 0" and cnt: "1 \<le> count d"
    and contract: "\<forall>i < nat (count d).
                     1 \<le> feed g (consumed g + i) \<and> feed g (consumed g + i) \<le> sides d"
  shows "(\<forall>d'. fst (Dice_roll cfg d g) = Inr d' \<longrightarrow>
            count d \<le> result d' \<and> result d' \<le> count d * sides d) \<and>
         (count d * sides d < 2 ^ 1024 - 2 ^ 970 \<longrightarrow> (\<exists>d'. fst (Dice_roll cfg d g) = Inr d')) \<and>
         ebind (Dice_init default_config ''2D6'')
           (\<lambda>d. ebind (fst (Dice_roll default_config d (replay [3, 5] 1)))
              (\<lambda>d'. Inr (result d', detail d'))) = Inr (8, ''2D6=[3+5]=8'')"
proof -
  define xs where "xs = map (\<lambda>i. feed g (consumed g + i)) [0..<nat (count d)]"
  have len: "int (length xs) = count d" unfolding xs_def using cnt by simp
  have "\<forall>x\<in>set xs. 1 \<le> x \<and> x \<le> sides d" unfolding xs_def using contract by auto
  note b = sum_list_bounds [OF this]
  have lo: "count d \<le> sum_list xs" using b len by simp
  have hi: "sum_list xs \<le> count d * sides d" using b len by simp
  have elem: "1 \<le> x \<and> x \<le> count d * sides d" if "x \<in> set xs" for x
  proof -
    have x: "1 \<le> x" "x \<le> sides d" using that contract unfolding xs_def by auto
    then have "0 \<le> sides d" by linarith
    with cnt have "1 * sides d \<le> count d * sides d" by (intro mult_right_mono) simp_all
    then show ?thesis using x by linarith
  qed
  have range: "count d \<le> result d' \<and> result d' \<le> count d * sides d"
    if "fst (Dice_roll cfg d g) = Inr d'" for d'
    using Dice_roll_plain_result [OF adv cnt that] lo hi unfolding xs_def by simp
  have total: "\<exists>d'. fst (Dice_roll cfg d g) = Inr d'"
    if small: "count d * sides d < 2 ^ 1024 - 2 ^ 970"
  proof (rule Dice_roll_plain_total [OF adv cnt])
    fix x assume "x \<in> set (map (\<lambda>i. feed g (consumed g + i)) [0..<nat (count d)])"
    then have "1 \<le> x \<and> x \<le> count d * sides d" using elem unfolding xs_def by simp
    then have "\<bar>x\<bar> < 2 ^ 1024 - 2 ^ 970" using small by simp
    then show "\<exists>s. fmt_num cfg x False = Inr s" by (rule fmt_num_total)
  next
    fix sep
    have "\<bar>sum_list xs\<bar> < 2 ^ 1024 - 2 ^ 970" using lo hi cnt small by simp
    then show "\<exists>s. fmt_num cfg
        (sum_list (map (\<lambda>i. feed g (consumed g + i)) [0..<nat (count d)])) sep = Inr s"
      unfolding xs_def by (rule fmt_num_total)
  qed
  have example: "ebind (Dice_init default_config ''2D6'')
           (\<lambda>d. ebind (fst (Dice_roll default_config d (replay [3, 5] 1)))
              (\<lambda>d'. Inr (result d', detail d'))) = Inr (8, ''2D6=[3+5]=8'')"
    by (simp add: parse_eval) (simp add: roll_eval)
  show ?thesis using range total example by blast
qed

theorem Dice_roll_range_witness:
  "(\<exists>d'. fst (Dice_roll default_config
       \<lparr>code = ''2D6'', result = 0, detail = [], count = 2, sides = 6, adv = 0, positive = 0\<rparr>
       (replay [3, 5] 1)) = Inr d' \<and> 2 \<le> result d' \<and> result d' \<le> 2 * 6)"
proof -
  let ?d = "\<lparr>code = ''2D6'', result = 0, detail = [], count = 2, sides = 6, adv = 0, positive = 0\<rparr>"
  let ?g = "replay [3, 5] 1"
  have adv: "adv ?d = 0" and cnt: "1 \<le> count ?d" by simp_all
  have contract: "\<forall>i < nat (count ?d).
      1 \<le> feed ?g (consumed ?g + i) \<and> feed ?g (consumed ?g + i) \<le> sides ?d"
    by (auto simp: replay_def less_2_cases_iff)
  have small: "count ?d * sides ?d < 2 ^ 1024 - 2 ^ 970" by simp
  note t = Dice_roll_range [OF adv cnt contract, of default_config]
  from t small obtain d' where d': "fst (Dice_roll default_config ?d ?g) = Inr d'" by blast
  with t have "count ?d \<le> result d' \<and> result d' \<le> count ?d * sides ?d" by blast
  then have "2 \<le> result d' \<and> result d' \<le> 2 * 6" by simp
  with d' show ?thesis by blast
qed

text \<open>
  Claim C2. For the Standard Pool \<open>NdM\<close> without keep or drop, every source that
  respects the range contract yields a result in \<open>[N, N * M]\<close>. The code misses this
  where a number to format does not fit a float: the notation \<open>1D\<close> followed by the
  decimal digits of \<open>2^1024\<close> passes validation (there is no bound on the sides), the
  draw \<open>2^1024\<close> respects the contract, and \<^verbatim>\<open>roll\<close> yields no result: formatting the
  draw raises \<^verbatim>\<open>OverflowError\<close>.
\<close>

theorem Dice_roll_raises_OverflowError:
  "fst (Dice_roll default_config
     \<lparr>code = ''1D'' @ str_int (2 ^ 1024), result = 0, detail = [],
      count = 1, sides = 2 ^ 1024, adv = 0, positive = 0\<rparr>
     (replay [2 ^ 1024] 1)) = Inl OverflowError"
proof -
  let ?d = "\<lparr>code = ''1D'' @ str_int (2 ^ 1024), result = 0, detail = [],
      count = 1, sides = 2 ^ 1024, adv = 0, positive = 0\<rparr>"
  let ?g = "replay [2 ^ 1024] 1"
  have r: "fst (Dice_roll default_config ?d ?g) =
      ebind (fmt_num default_config (feed ?g (consumed ?g)) True) (\<lambda>s.
        Inr (?d\<lparr>detail := too_long default_config (code ?d @ ''='' @ s),
                 result := feed ?g (consumed ?g)\<rparr>))"
    by (rule Dice_roll_single) simp_all
  have f: "feed ?g (consumed ?g) = 2 ^ 1024" by (simp add: replay_def)
  show ?thesis unfolding r f fmt_num_huge by simp
qed

subsection \<open>Claim C3: the candidates of a Bonus/Punish roll\<close>

text \<open>
  C3 (as amended). For a Bonus/Punish roll with \<open>count \<ge> 1\<close>, base draw \<open>b\<close> in
  \<open>[1, 100]\<close> and drawn digits \<open>ds\<close> in \<open>[0, 9]\<close>, the roll returns, and its result is the
  maximum (bonus, \<open>P\<close>) or the minimum (punish, \<open>B\<close>) of the candidates: \<open>b\<close> itself
  and, for each drawn digit \<open>d\<close>, the number \<open>10 * d + b mod 10\<close>, that is
  \<^verbatim>\<open>int(str(d) + str(units digit of b))\<close>, with 0 replaced by 100. The result lies in
  \<open>[1, 100]\<close>.
\<close>

theorem BonusPunishDice_roll_candidates:
  assumes cnt: "1 \<le> bcount self"
    and base: "1 \<le> feed g (consumed g) \<and> feed g (consumed g) \<le> 100"
    and digits: "\<forall>d\<in>set (drawn g 1 (nat (bcount self))). 0 \<le> d \<and> d \<le> 9"
  shows "\<exists>self'. fst (BonusPunishDice_roll cfg self g) = Inr self' \<and>
           result self' =
             (if bpositive self
              then Max (set (candidates (feed g (consumed g)) (drawn g 1 (nat (bcount self)))))
              else Min (set (candidates (feed g (consumed g)) (drawn g 1 (nat (bcount self)))))) \<and>
           1 \<le> result self' \<and> result self' \<le> 100"
proof -
  define b where "b = fst (randint 1 100 g)"
  define ds where "ds = fst (randints (nat (bcount self)) 0 9 (snd (randint 1 100 g)))"
  define out0 where "out0 = ''D100='' @ str_int b @ '', '' @ code self"
  define R where "R = (if bpositive self then Max (set (candidates b ds))
                        else Min (set (candidates b ds)))"
  have b: "b = feed g (consumed g)" unfolding b_def randint_def by simp
  have ds: "ds = drawn g 1 (nat (bcount self))"
    unfolding ds_def drawn_def randints_eq randint_def by simp
  have len: "length ds = nat (bcount self)" unfolding ds drawn_def by simp
  have dig: "\<forall>d\<in>set ds. 0 \<le> d \<and> d \<le> 9" using digits unfolding ds .
  have small: "\<exists>s. fmt_num cfg x sep = Inr s" if "\<bar>x\<bar> \<le> 100" for x sep
  proof (rule fmt_num_total)
    have "(100::int) < 2 ^ 1024 - 2 ^ 970" by simp
    with that show "\<bar>x\<bar> < 2 ^ 1024 - 2 ^ 970" by linarith
  qed
  have sub: "digit_results (b mod 10) ds = Inr (map (\<lambda>d. 10 * d + b mod 10) ds)"
    by (rule digit_results_eq) (use dig in simp_all)
  have cand: "map (\<lambda>item. if item = 0 then 100 else item) (b # map (\<lambda>d. 10 * d + b mod 10) ds)
                = candidates b ds"
    unfolding candidates_def by simp
  have ne: "candidates b ds \<noteq> []" unfolding candidates_def by simp
  have rng: "\<forall>c\<in>set (candidates b ds). 1 \<le> c \<and> c \<le> 100"
    by (rule candidates_range) (use base dig b in simp_all)
  have "R \<in> set (candidates b ds)"
    unfolding R_def using ne by (simp add: Max_in Min_in)
  with rng have R: "1 \<le> R \<and> R \<le> 100" by blast
  have pick: "(if bpositive self then py_max (candidates b ds) else py_min (candidates b ds)) = Inr R"
    unfolding R_def using ne by (simp add: py_max_eq py_min_eq)
  obtain s where s: "fmt_num cfg R True = Inr s" using small [of R True] R by auto
  have items: "\<exists>b'. bp_items cfg ds (bcount self) [0..<nat (bcount self)] ''=['' = Inr b'"
  proof (rule bp_items_total)
    fix i assume "i \<in> set [0..<nat (bcount self)]"
    then have "ds ! i \<in> set ds" using len by simp
    then have "\<bar>ds ! i\<bar> \<le> 100" using dig by fastforce
    then show "\<exists>s. fmt_num cfg (ds ! i) False = Inr s" by (rule small)
  qed
  have "\<exists>out. (if bcount self > 1 then
            (if bcount self \<ge> MAX_OUTPUT_CNT cfg
             then Inr (out0 @ output_too_long (bcount self))
             else ebind (bp_items cfg ds (bcount self) [0..<nat (bcount self)] ''=['')
                    (\<lambda>output_buffer.
                       Inr (out0 @ output_buffer @ '']'')))
          else (case ds of
                  [] \<Rightarrow> Inl IndexError
                | x # _ \<Rightarrow> ebind (fmt_num cfg x True)
                     (\<lambda>s. Inr (out0 @ ''='' @ s)))) = Inr out"
  proof (cases "bcount self > 1")
    case True
    then show ?thesis using items by auto
  next
    case False
    from len cnt obtain x r where x: "ds = x # r" by (cases ds) auto
    then have "\<bar>x\<bar> \<le> 100" using dig by fastforce
    then obtain t where "fmt_num cfg x True = Inr t" using small by blast
    then show ?thesis using False x by simp
  qed
  then obtain out where out: "(if bcount self > 1 then
            (if bcount self \<ge> MAX_OUTPUT_CNT cfg
             then Inr (out0 @ output_too_long (bcount self))
             else ebind (bp_items cfg ds (bcount self) [0..<nat (bcount self)] ''=['')
                    (\<lambda>output_buffer.
                       Inr (out0 @ output_buffer @ '']'')))
          else (case ds of
                  [] \<Rightarrow> Inl IndexError
                | x # _ \<Rightarrow> ebind (fmt_num cfg x True)
                     (\<lambda>s. Inr (out0 @ ''='' @ s)))) = Inr out"
    by blast
  have "fst (BonusPunishDice_roll cfg self g) =
          Inr (self\<lparr>detail := too_long cfg (out @ ''='' @ s), result := R\<rparr>)"
    unfolding BonusPunishDice_roll_def Let_def b_def [symmetric] ds_def [symmetric]
      out0_def [symmetric]
    by (simp only: fst_conv sub ebind.simps cand out pick s)
  then show ?thesis using R unfolding R_def b ds by simp
qed

theorem BonusPunishDice_roll_candidates_witness:
  "\<exists>self'. fst (BonusPunishDice_roll default_config
       \<lparr>code = ''P'', result = 0, detail = [], bcount = 1, bpositive = True\<rparr>
       (replay [37, 5] 1)) = Inr self' \<and> result self' = 57"
proof -
  let ?self = "\<lparr>code = ''P'', result = 0, detail = [], bcount = 1, bpositive = True\<rparr>"
  let ?g = "replay [37, 5] 1"
  have dr: "drawn ?g 1 (nat (bcount ?self)) = [5]" by (simp add: drawn_def replay_def)
  have cnt: "1 \<le> bcount ?self" by simp
  have base: "1 \<le> feed ?g (consumed ?g) \<and> feed ?g (consumed ?g) \<le> 100"
    by (simp add: replay_def)
  have digits: "\<forall>d\<in>set (drawn ?g 1 (nat (bcount ?self))). 0 \<le> d \<and> d \<le> 9"
    unfolding dr by simp
  have c: "Max (set (candidates (feed ?g (consumed ?g)) (drawn ?g 1 (nat (bcount ?self))))) = 57"
    unfolding dr by (simp add: candidates_def replay_def)
  from BonusPunishDice_roll_candidates [OF cnt base digits, of default_config]
  show ?thesis unfolding c by auto
qed

text \<open>
  C3 as stated fails: with the base 37 and the drawn digit 5 the bonus roll returns
  57, the digit 5 in front of the units digit 7 (\<^verbatim>\<open>d100_digit = d100_result % 10\<close>),
  whereas the candidates of the claim, built with the tens digit 3, are 37 and 53.
\<close>

theorem BonusPunishDice_tens_digit_counterexample:
  "fst (BonusPunishDice_roll default_config
     \<lparr>code = ''P'', result = 0, detail = [], bcount = 1, bpositive = True\<rparr>
     (replay [37, 5] 1)) =
     Inr \<lparr>code = ''P'', result = 57, detail = ''D100=37, P=5=57'', bcount = 1, bpositive = True\<rparr>
   \<and> Max (set (claimed_candidates 37 [5])) = 53"
proof -
  have "fst (BonusPunishDice_roll default_config
     \<lparr>code = ''P'', result = 0, detail = [], bcount = 1, bpositive = True\<rparr>
     (replay [37, 5] 1)) =
     Inr \<lparr>code = ''P'', result = 57, detail = ''D100=37, P=5=57'', bcount = 1, bpositive = True\<rparr>"
    by (simp add: BonusPunishDice_roll_def randint_def randints_eq replay_def
        py_int_def is_digit_def nat_of_digits_def digit_val_def py_max_def too_long_def fmt_eval)
  moreover have "Max (set (claimed_candidates 37 [5])) = 53"
    by (simp add: claimed_candidates_def)
  ultimately show ?thesis by (rule conjI)
qed

subsection \<open>Trace-length truncation\<close>

text \<open>
  Claim C7. For every variant and every draw sequence, replacing the assembled trace
  by the generic "too long" placeholder when it is longer than \<^verbatim>\<open>MAX_OUTPUT_LEN\<close>
  leaves the numeric result as it would be without that truncation: whatever the
  value \<open>L\<close> of \<^verbatim>\<open>MAX_OUTPUT_LEN\<close>, in particular one that no trace exceeds, a roll
  from the same source raises the same exception or sets the same \<open>result\<close>, and
  leaves the source in the same state (for the two exploding variants it also ends
  or not alike).
\<close>

theorem roll_result_independent_of_MAX_OUTPUT_LEN:
  "result_of (Dice_roll (cfg\<lparr>MAX_OUTPUT_LEN := L\<rparr>) d g) = result_of (Dice_roll cfg d g) \<and>
   result_of (FudgeDice_roll (cfg\<lparr>MAX_OUTPUT_LEN := L\<rparr>) f g) = result_of (FudgeDice_roll cfg f g) \<and>
   result_of (BonusPunishDice_roll (cfg\<lparr>MAX_OUTPUT_LEN := L\<rparr>) b g)
     = result_of (BonusPunishDice_roll cfg b g) \<and>
   map_option result_of (WODDice_roll (cfg\<lparr>MAX_OUTPUT_LEN := L\<rparr>) w g)
     = map_option result_of (WODDice_roll cfg w g) \<and>
   map_option result_of (DXDice_roll (cfg\<lparr>MAX_OUTPUT_LEN := L\<rparr>) x g)
     = map_option result_of (DXDice_roll cfg x g)"
proof (intro conjI)
  show "result_of (Dice_roll (cfg\<lparr>MAX_OUTPUT_LEN := L\<rparr>) d g) = result_of (Dice_roll cfg d g)"
    by (rule Dice_roll_LEN)
  show "result_of (FudgeDice_roll (cfg\<lparr>MAX_OUTPUT_LEN := L\<rparr>) f g)
        = result_of (FudgeDice_roll cfg f g)"
    by (rule FudgeDice_roll_LEN)
  show "result_of (BonusPunishDice_roll (cfg\<lparr>MAX_OUTPUT_LEN := L\<rparr>) b g)
        = result_of (BonusPunishDice_roll cfg b g)"
    by (rule BonusPunishDice_roll_LEN)
  show "map_option result_of (WODDice_roll (cfg\<lparr>MAX_OUTPUT_LEN := L\<rparr>) w g)
        = map_option result_of (WODDice_roll cfg w g)"
    by (rule WODDice_roll_LEN)
  show "map_option result_of (DXDice_roll (cfg\<lparr>MAX_OUTPUT_LEN := L\<rparr>) x g)
        = map_option result_of (DXDice_roll cfg x g)"
    by (rule DXDice_roll_LEN)
qed

subsection \<open>Determinism in the draw sequence\<close>

text \<open>
  Claim C10. Evaluation is deterministic in the draw sequence: two sources that hand
  out the same sequence of values from where they stand give, for every object of
  every variant, the same outcome: the same exception, or the same object with equal
  \<open>result\<close> and identical \<open>detail\<close>; the two exploding variants end or do not end
  alike.
\<close>

theorem roll_deterministic:
  assumes "same_seq g g'"
  shows "fst (Dice_roll cfg d g) = fst (Dice_roll cfg d g') \<and>
         fst (FudgeDice_roll cfg f g) = fst (FudgeDice_roll cfg f g') \<and>
         fst (BonusPunishDice_roll cfg b g) = fst (BonusPunishDice_roll cfg b g') \<and>
         map_option fst (WODDice_roll cfg w g) = map_option fst (WODDice_roll cfg w g') \<and>
         map_option fst (DXDice_roll cfg x g) = map_option fst (DXDice_roll cfg x g')"
proof (intro conjI)
  show "fst (Dice_roll cfg d g) = fst (Dice_roll cfg d g')"
    using assms by (rule Dice_roll_same_seq)
  show "fst (FudgeDice_roll cfg f g) = fst (FudgeDice_roll cfg f g')"
    using assms by (rule FudgeDice_roll_same_seq)
  show "fst (BonusPunishDice_roll cfg b g) = fst (BonusPunishDice_roll cfg b g')"
    using assms by (rule BonusPunishDice_roll_same_seq)
  show "map_option fst (WODDice_roll cfg w g) = map_option fst (WODDice_roll cfg w g')"
    using assms by (rule WODDice_roll_same_seq)
  show "map_option fst (DXDice_roll cfg x g) = map_option fst (DXDice_roll cfg x g')"
    using assms by (rule DXDice_roll_same_seq)
qed

text \<open>
  A source that replays 3, 5 and one that has already handed out a 9 and goes on with
  3, 5: the second gives \<open>2D6\<close> the outcome of the first.
\<close>

theorem roll_deterministic_witness:
  "same_seq (replay [3, 5] 1) ((replay [9, 3, 5] 1)\<lparr>consumed := 1\<rparr>) \<and>
   fst (Dice_roll default_config
          \<lparr>code = ''2D6'', result = 0, detail = [], count = 2, sides = 6, adv = 0, positive = 0\<rparr>
          ((replay [9, 3, 5] 1)\<lparr>consumed := 1\<rparr>))
     = Inr \<lparr>code = ''2D6'', result = 8, detail = ''2D6=[3+5]=8'',
            count = 2, sides = 6, adv = 0, positive = 0\<rparr>"
proof -
  let ?d = "\<lparr>code = ''2D6'', result = 0, detail = [], count = 2, sides = 6, adv = 0, positive = 0\<rparr>"
  let ?g = "replay [3, 5] 1"
  let ?g' = "(replay [9, 3, 5] 1)\<lparr>consumed := 1\<rparr>"
  have s: "same_seq ?g ?g'"
    unfolding same_seq_def replay_def by (auto simp: nth_Cons' less_Suc_eq)
  have "fst (Dice_roll default_config ?d ?g) = fst (Dice_roll default_config ?d ?g')"
    using roll_deterministic [OF s, of default_config ?d] by simp
  moreover have "fst (Dice_roll default_config ?d ?g)
     = Inr \<lparr>code = ''2D6'', result = 8, detail = ''2D6=[3+5]=8'',
            count = 2, sides = 6, adv = 0, positive = 0\<rparr>"
    by (simp add: roll_eval)
  ultimately show ?thesis using s by simp
qed

subsection \<open>Claim C6: item-count truncation\<close>

text \<open>
  C6 (as amended). The numeric result does not depend on \<^verbatim>\<open>MAX_OUTPUT_CNT\<close>: with any
  value \<open>M\<close> in its place, a roll from the same source raises the same exception or
  sets the same \<open>result\<close> as the roll that truncates (for Bonus/Punish when the drawn
  digits lie in \<open>[0, 9]\<close>). In the trace of a roll that returns, the placeholder
  carrying the count stands in place of the itemized bracket

    \<^item> of the Standard Pool without keep or drop (more than one die) and of the Fudge
      Pool, when the count exceeds \<^verbatim>\<open>MAX_OUTPUT_CNT\<close>;
    \<^item> of the keep/drop list of the Standard Pool, of Bonus/Punish (more than one
      digit), of the Exploding Pool and of Double-Cross, when the count reaches or
      exceeds \<^verbatim>\<open>MAX_OUTPUT_CNT\<close>.

  A Fudge Pool whose count does not exceed \<^verbatim>\<open>MAX_OUTPUT_CNT\<close>, so also one whose
  count equals it, lists its dice.
\<close>

theorem item_count_truncation:
  assumes digits: "\<forall>v\<in>set (drawn g 1 (nat (bcount b))). 0 \<le> v \<and> v \<le> 9"
  shows "result_of (Dice_roll (cfg\<lparr>MAX_OUTPUT_CNT := M\<rparr>) d g) = result_of (Dice_roll cfg d g) \<and>
         result_of (FudgeDice_roll (cfg\<lparr>MAX_OUTPUT_CNT := M\<rparr>) f g)
           = result_of (FudgeDice_roll cfg f g) \<and>
         result_of (BonusPunishDice_roll (cfg\<lparr>MAX_OUTPUT_CNT := M\<rparr>) b g)
           = result_of (BonusPunishDice_roll cfg b g) \<and>
         map_option result_of (WODDice_roll (cfg\<lparr>MAX_OUTPUT_CNT := M\<rparr>) w g)
           = map_option result_of (WODDice_roll cfg w g) \<and>
         map_option result_of (DXDice_roll (cfg\<lparr>MAX_OUTPUT_CNT := M\<rparr>) x g)
           = map_option result_of (DXDice_roll cfg x g) \<and>
         (adv d = 0 \<and> 1 < count d \<and> MAX_OUTPUT_CNT cfg < count d \<longrightarrow>
            (\<forall>d'. fst (Dice_roll cfg d g) = Inr d' \<longrightarrow>
               placeholder_detail cfg (code d) (count d) (result d') (detail d'))) \<and>
         (adv d \<noteq> 0 \<and> MAX_OUTPUT_CNT cfg \<le> count d \<longrightarrow>
            (\<forall>d'. fst (Dice_roll cfg d g) = Inr d' \<longrightarrow>
               (\<exists>rest. detail d' = too_long cfg (code d @ output_too_long (count d) @ rest)))) \<and>
         (MAX_OUTPUT_CNT cfg < fcount f \<longrightarrow>
            (\<forall>f'. fst (FudgeDice_roll cfg f g) = Inr f' \<longrightarrow>
               placeholder_detail cfg [] (fcount f) (result f') (detail f'))) \<and>
         (fcount f \<le> MAX_OUTPUT_CNT cfg \<longrightarrow>
            (\<forall>f'. fst (FudgeDice_roll cfg f g) = Inr f' \<longrightarrow>
               (\<exists>s. fmt_num cfg (result f') True = Inr s \<and>
                    detail f' = too_long cfg
                      (replace ''D'' [] (code f) @ ''=['' @
                       join '', '' (map (\<lambda>v. [''-'', ''0'', ''+''] ! nat (v mod 3))
                                       (drawn g 0 (nat (fcount f)))) @ '']'' @ ''='' @ s)))) \<and>
         (1 < bcount b \<and> MAX_OUTPUT_CNT cfg \<le> bcount b \<longrightarrow>
            (\<forall>b'. fst (BonusPunishDice_roll cfg b g) = Inr b' \<longrightarrow>
               placeholder_detail cfg
                 (''D100='' @ str_int (feed g (consumed g)) @ '', '' @ code b)
                 (bcount b) (result b') (detail b'))) \<and>
         (MAX_OUTPUT_CNT cfg \<le> wcount w \<longrightarrow>
            (\<forall>w' g'. WODDice_roll cfg w g = Some (Inr w', g') \<longrightarrow>
               placeholder_detail cfg (code w) (wcount w) (result w') (detail w'))) \<and>
         (MAX_OUTPUT_CNT cfg \<le> xcount x \<longrightarrow>
            (\<forall>x' g'. DXDice_roll cfg x g = Some (Inr x', g') \<longrightarrow>
               placeholder_detail cfg (code x) (xcount x) (result x') (detail x')))"
proof (intro conjI impI allI)
  show "result_of (Dice_roll (cfg\<lparr>MAX_OUTPUT_CNT := M\<rparr>) d g) = result_of (Dice_roll cfg d g)"
    by (rule Dice_roll_CNT)
  show "result_of (FudgeDice_roll (cfg\<lparr>MAX_OUTPUT_CNT := M\<rparr>) f g)
        = result_of (FudgeDice_roll cfg f g)"
    by (rule FudgeDice_roll_CNT)
  show "result_of (BonusPunishDice_roll (cfg\<lparr>MAX_OUTPUT_CNT := M\<rparr>) b g)
        = result_of (BonusPunishDice_roll cfg b g)"
    using digits by (rule BonusPunishDice_roll_CNT)
  show "map_option result_of (WODDice_roll (cfg\<lparr>MAX_OUTPUT_CNT := M\<rparr>) w g)
        = map_option result_of (WODDice_roll cfg w g)"
    by (rule WODDice_roll_CNT)
  show "map_option result_of (DXDice_roll (cfg\<lparr>MAX_OUTPUT_CNT := M\<rparr>) x g)
        = map_option result_of (DXDice_roll cfg x g)"
    by (rule DXDice_roll_CNT)
next
  fix d'
  assume "adv d = 0 \<and> 1 < count d \<and> MAX_OUTPUT_CNT cfg < count d"
    and "fst (Dice_roll cfg d g) = Inr d'"
  then show "placeholder_detail cfg (code d) (count d) (result d') (detail d')"
    unfolding placeholder_detail_iff using Dice_roll_placeholder [of d cfg g d'] by simp
next
  fix d'
  assume "adv d \<noteq> 0 \<and> MAX_OUTPUT_CNT cfg \<le> count d" and "fst (Dice_roll cfg d g) = Inr d'"
  then show "\<exists>rest. detail d' = too_long cfg (code d @ output_too_long (count d) @ rest)"
    using Dice_roll_placeholder_adv [of d cfg g d'] by simp
next
  fix f'
  assume "MAX_OUTPUT_CNT cfg < fcount f" and "fst (FudgeDice_roll cfg f g) = Inr f'"
  then show "placeholder_detail cfg [] (fcount f) (result f') (detail f')"
    unfolding placeholder_detail_iff using FudgeDice_roll_placeholder [of cfg f g f'] by simp
next
  fix f'
  assume "fcount f \<le> MAX_OUTPUT_CNT cfg" and "fst (FudgeDice_roll cfg f g) = Inr f'"
  then show "\<exists>s. fmt_num cfg (result f') True = Inr s \<and>
                detail f' = too_long cfg
                  (replace ''D'' [] (code f) @ ''=['' @
                   join '', '' (map (\<lambda>v. [''-'', ''0'', ''+''] ! nat (v mod 3))
                                   (drawn g 0 (nat (fcount f)))) @ '']'' @ ''='' @ s)"
    by (rule FudgeDice_roll_itemized)
next
  fix b'
  assume "1 < bcount b \<and> MAX_OUTPUT_CNT cfg \<le> bcount b"
    and "fst (BonusPunishDice_roll cfg b g) = Inr b'"
  then show "placeholder_detail cfg (''D100='' @ str_int (feed g (consumed g)) @ '', '' @ code b)
               (bcount b) (result b') (detail b')"
    unfolding placeholder_detail_iff using BonusPunishDice_roll_placeholder [of b cfg g b'] by simp
next
  fix w' g'
  assume "MAX_OUTPUT_CNT cfg \<le> wcount w" and "WODDice_roll cfg w g = Some (Inr w', g')"
  then show "placeholder_detail cfg (code w) (wcount w) (result w') (detail w')"
    unfolding placeholder_detail_iff by (rule WODDice_roll_placeholder)
next
  fix x' g'
  assume "MAX_OUTPUT_CNT cfg \<le> xcount x" and "DXDice_roll cfg x g = Some (Inr x', g')"
  then show "placeholder_detail cfg (code x) (xcount x) (result x') (detail x')"
    unfolding placeholder_detail_iff by (rule DXDice_roll_placeholder)
qed

text \<open>
  With \<^verbatim>\<open>MAX_OUTPUT_CNT\<close> set to 2, the notation \<open>3D6\<close> and the draws 3, 5, 2 give the
  result 10 behind the placeholder, and the result 10 under any other limit.
\<close>

theorem item_count_truncation_witness:
  "drawn (replay [3, 5, 2] 1) 1
     (nat (bcount \<lparr>code = ''B2'', result = 0, detail = [], bcount = 2, bpositive = False\<rparr>))
     = [5, 2] \<and>
   fst (Dice_roll (default_config\<lparr>MAX_OUTPUT_CNT := 2\<rparr>)
          \<lparr>code = ''3D6'', result = 0, detail = [], count = 3, sides = 6, adv = 0, positive = 0\<rparr>
          (replay [3, 5, 2] 1))
     = Inr \<lparr>code = ''3D6'', result = 10,
            detail = ''3D6=[{I18N:dice.message.output.too_long,length=3}]=10'',
            count = 3, sides = 6, adv = 0, positive = 0\<rparr> \<and>
   placeholder_detail (default_config\<lparr>MAX_OUTPUT_CNT := 2\<rparr>) ''3D6'' 3 10
     ''3D6=[{I18N:dice.message.output.too_long,length=3}]=10'' \<and>
   result_of (Dice_roll (default_config\<lparr>MAX_OUTPUT_CNT := 2\<rparr>\<lparr>MAX_OUTPUT_CNT := 50\<rparr>)
          \<lparr>code = ''3D6'', result = 0, detail = [], count = 3, sides = 6, adv = 0, positive = 0\<rparr>
          (replay [3, 5, 2] 1))
     = (Inr 10, (replay [3, 5, 2] 1)\<lparr>consumed := 3\<rparr>)"
proof -
  let ?cfg = "default_config\<lparr>MAX_OUTPUT_CNT := 2\<rparr>"
  let ?d = "\<lparr>code = ''3D6'', result = 0, detail = [], count = 3, sides = 6, adv = 0, positive = 0\<rparr>"
  let ?d' = "\<lparr>code = ''3D6'', result = 10,
            detail = ''3D6=[{I18N:dice.message.output.too_long,length=3}]=10'',
            count = 3, sides = 6, adv = 0, positive = 0\<rparr>"
  let ?b = "\<lparr>code = ''B2'', result = 0, detail = [], bcount = 2, bpositive = False\<rparr>"
  let ?g = "replay [3, 5, 2] 1"
  have dr: "drawn ?g 1 (nat (bcount ?b)) = [5, 2]"
    by (simp add: drawn_def replay_def upt_conv_Cons)
  have digits: "\<forall>v\<in>set (drawn ?g 1 (nat (bcount ?b))). 0 \<le> v \<and> v \<le> 9"
    unfolding dr by simp
  have roll: "fst (Dice_roll ?cfg ?d ?g) = Inr ?d'"
    by (simp add: roll_eval output_too_long_def I18NContext_def)
  have pre: "adv ?d = 0 \<and> 1 < count ?d \<and> MAX_OUTPUT_CNT ?cfg < count ?d"
    by (simp add: default_config_def)
  note t = item_count_truncation [OF digits, where cfg = ?cfg and M = 50 and d = ?d]
  from t pre roll have "placeholder_detail ?cfg (code ?d) (count ?d) (result ?d') (detail ?d')"
    by blast
  then have ph: "placeholder_detail ?cfg ''3D6'' 3 10
     ''3D6=[{I18N:dice.message.output.too_long,length=3}]=10''" by simp
  from t have "result_of (Dice_roll (?cfg\<lparr>MAX_OUTPUT_CNT := 50\<rparr>) ?d ?g)
               = result_of (Dice_roll ?cfg ?d ?g)" by blast
  also have "\<dots> = (Inr 10, ?g\<lparr>consumed := 3\<rparr>)"
    unfolding result_of_def roll by (simp add: Dice_roll_def randints_eq replay_def)
  finally show ?thesis using dr roll ph by blast
qed

text \<open>
  C6 as stated fails for a count equal to \<^verbatim>\<open>MAX_OUTPUT_CNT\<close>: \<^verbatim>\<open>FudgeDice.roll\<close> tests
  \<^verbatim>\<open>self.count > MAX_OUTPUT_CNT\<close> (its comment says that the limit itself is still
  displayed), so \<open>50DF\<close> under the default limit 50 lists its fifty dice.
\<close>

theorem FudgeDice_roll_count_at_limit_counterexample:
  "MAX_OUTPUT_CNT default_config = 50 \<and>
   FudgeDice_init default_config ''50DF''
     = Inr \<lparr>code = ''50DF'', result = 0, detail = [], fcount = 50\<rparr> \<and>
   fst (FudgeDice_roll default_config
          \<lparr>code = ''50DF'', result = 0, detail = [], fcount = 50\<rparr> (replay [0, 1, 2] 1))
     = Inr \<lparr>code = ''50DF'', result = 0,
            detail = ''50F=[-, 0, +, 0, 0, 0, 0, 0, 0, 0, 0, 0, 0, 0, 0, 0, 0, 0, 0, 0, 0, 0, 0, 0, 0, 0, 0, 0, 0, 0, 0, 0, 0, 0, 0, 0, 0, 0, 0, 0, 0, 0, 0, 0, 0, 0, 0, 0, 0, 0]=0'',
            fcount = 50\<rparr>"
proof -
  have i: "FudgeDice_init default_config ''50DF''
           = Inr \<lparr>code = ''50DF'', result = 0, detail = [], fcount = 50\<rparr>"
    by (simp add: FudgeDice_init_def FudgeDice_get_args_def parse_eval)
  have r: "fst (FudgeDice_roll default_config
          \<lparr>code = ''50DF'', result = 0, detail = [], fcount = 50\<rparr> (replay [0, 1, 2] 1))
     = Inr \<lparr>code = ''50DF'', result = 0,
            detail = ''50F=[-, 0, +, 0, 0, 0, 0, 0, 0, 0, 0, 0, 0, 0, 0, 0, 0, 0, 0, 0, 0, 0, 0, 0, 0, 0, 0, 0, 0, 0, 0, 0, 0, 0, 0, 0, 0, 0, 0, 0, 0, 0, 0, 0, 0, 0, 0, 0, 0, 0]=0'',
            fcount = 50\<rparr>"
    by (simp add: FudgeDice_roll_def choices_eq drawn_def replay_def upt_conv_Cons replace.simps
        too_long_def fmt_eval)
  have m: "MAX_OUTPUT_CNT default_config = 50" by (simp add: default_config_def)
  show ?thesis using i r m by blast
qed

subsection \<open>Claim C8: the success count and the success line\<close>

text \<open>
  C8 (as amended). For the Exploding Pool, with the draws held fixed, lowering the
  success line to a value \<open>s'\<close> other than 0 does not lower the success count: when
  the roll at the higher line returns, its count is at least 0, the roll at \<open>s'\<close> ends
  with the same draws taken, and it returns a count at least as large (unless
  formatting that larger count raises \<^verbatim>\<open>OverflowError\<close>). A success line 0 switches
  the test \<^verbatim>\<open>success_line <= value\<close> off.
\<close>

theorem WODDice_roll_success_monotone:
  assumes le: "s' \<le> success_line w" and nz: "s' \<noteq> 0"
    and run: "WODDice_roll cfg w g = Some (Inr r, g1)"
  shows "0 \<le> result r \<and>
         (\<exists>y. WODDice_roll cfg (w\<lparr>success_line := s'\<rparr>) g = Some (y, g1) \<and>
              (case y of Inl e \<Rightarrow> e = OverflowError | Inr r' \<Rightarrow> result r \<le> result r'))"
proof -
  let ?w' = "w\<lparr>success_line := s'\<rparr>"
  from run obtain q where q: "WOD_loop cfg w (wcount w) 0 ''=['' g = Some q"
    unfolding WODDice_roll_def by (cases "WOD_loop cfg w (wcount w) 0 ''=['' g") simp_all
  obtain a h where qa: "q = (a, h)" by (cases q)
  from run q qa obtain t where a: "a = Inr t"
    unfolding WODDice_roll_def by (cases a) simp_all
  obtain sc ob where t: "t = (sc, ob)" by (cases t)
  have res: "result r = sc" and h: "h = g1"
    using run unfolding WODDice_roll_def q qa a t
    by (auto simp: Let_def ebind_eq_Inr)
  from WOD_loop_success_mono [OF le nz q, where c' = 0 and b' = "''=[''"]
  obtain q' where q': "WOD_loop cfg ?w' (wcount w) 0 ''=['' g = Some q'"
    and s: "snd q' = h"
    and rel: "(case (fst q, fst q') of
              (Inl e, Inl e') \<Rightarrow> e' = e
            | (Inr (c1, b1), Inr (c1', b1')) \<Rightarrow> 0 \<le> c1 \<and> c1 \<le> c1'
            | _ \<Rightarrow> False)"
    unfolding qa by auto
  from rel obtain sc' ob' where f': "fst q' = Inr (sc', ob')" and c: "0 \<le> sc" "sc \<le> sc'"
    unfolding qa a t by (cases "fst q'") auto
  have q'eq: "q' = (Inr (sc', ob'), g1)" using f' s h by (cases q') simp
  show ?thesis
  proof (cases "fmt_num cfg sc' True")
    case (Inl e)
    then have "e = OverflowError" by (rule fmt_num_error)
    then have "WODDice_roll cfg ?w' g = Some (Inl OverflowError, g1)"
      unfolding WODDice_roll_def using q' q'eq Inl by (simp add: Let_def)
    then show ?thesis using c res by simp
  next
    case (Inr s)
    then have "\<exists>r'. WODDice_roll cfg ?w' g = Some (Inr r', g1) \<and> result r' = sc'"
      unfolding WODDice_roll_def using q' q'eq by (simp add: Let_def)
    then show ?thesis using c res by auto
  qed
qed

text \<open>
  The notation \<open>1A10K8\<close> with the draw 5 counts no success; with the line lowered to
  3 the draw counts.
\<close>

theorem WODDice_roll_success_monotone_witness:
  "WODDice_roll default_config
     \<lparr>code = ''1A10K8'', result = 0, detail = [], wcount = 1, wadd_line = 10,
      success_line = 8, success_line_max = 0, wsides = 10\<rparr> (replay [5] 1)
   = Some (Inr \<lparr>code = ''1A10K8'', result = 0, detail = ''1A10K8=[{5}]=0'', wcount = 1,
                wadd_line = 10, success_line = 8, success_line_max = 0, wsides = 10\<rparr>,
           (replay [5] 1)\<lparr>consumed := 1\<rparr>) \<and>
   (\<exists>y. WODDice_roll default_config
          \<lparr>code = ''1A10K8'', result = 0, detail = [], wcount = 1, wadd_line = 10,
           success_line = 3, success_line_max = 0, wsides = 10\<rparr> (replay [5] 1)
        = Some (y, (replay [5] 1)\<lparr>consumed := 1\<rparr>) \<and>
        (case y of Inl e \<Rightarrow> e = OverflowError | Inr r' \<Rightarrow> 0 \<le> result r'))"
proof -
  let ?w = "\<lparr>code = ''1A10K8'', result = 0, detail = [], wcount = 1, wadd_line = 10,
      success_line = 8, success_line_max = 0, wsides = 10\<rparr>"
  let ?r = "\<lparr>code = ''1A10K8'', result = 0, detail = ''1A10K8=[{5}]=0'', wcount = 1,
                wadd_line = 10, success_line = 8, success_line_max = 0, wsides = 10\<rparr>"
  let ?g = "replay [5] 1"
  have run: "WODDice_roll default_config ?w ?g = Some (Inr ?r, ?g\<lparr>consumed := 1\<rparr>)"
    unfolding WODDice_roll_def
    apply (subst WOD_loop.simps)
    apply (simp add: wod_roll_eval)
    apply (subst WOD_loop.simps)
    apply (simp add: wod_roll_eval)
    done
  have le: "3 \<le> success_line ?w" and nz: "(3::int) \<noteq> 0" by simp_all
  from WODDice_roll_success_monotone [OF le nz run] run show ?thesis
    by (simp cong: sum.case_cong)
qed

text \<open>
  C8 as stated fails when the success line decreases to 0: \<^verbatim>\<open>roll\<close> tests
  \<^verbatim>\<open>if success_line and success_line <= dice_results[i]\<close>, so at line 0 no die is a
  success by the line. With the draw 5, \<open>1A10K1\<close> counts one success and \<open>1A10K0\<close> none.
\<close>

theorem WODDice_roll_success_line_zero_counterexample:
  "WODDice_init default_config ''1A10K1'' =
     Inr \<lparr>code = ''1A10K1'', result = 0, detail = [], wcount = 1, wadd_line = 10,
          success_line = 1, success_line_max = 0, wsides = 10\<rparr> \<and>
   WODDice_roll default_config
     \<lparr>code = ''1A10K1'', result = 0, detail = [], wcount = 1, wadd_line = 10,
      success_line = 1, success_line_max = 0, wsides = 10\<rparr> (replay [5] 1)
   = Some (Inr \<lparr>code = ''1A10K1'', result = 1, detail = ''1A10K1=[{5*}]=1'', wcount = 1,
                wadd_line = 10, success_line = 1, success_line_max = 0, wsides = 10\<rparr>,
           (replay [5] 1)\<lparr>consumed := 1\<rparr>) \<and>
   WODDice_init default_config ''1A10K0'' =
     Inr \<lparr>code = ''1A10K0'', result = 0, detail = [], wcount = 1, wadd_line = 10,
          success_line = 0, success_line_max = 0, wsides = 10\<rparr> \<and>
   WODDice_roll default_config
     \<lparr>code = ''1A10K0'', result = 0, detail = [], wcount = 1, wadd_line = 10,
      success_line = 0, success_line_max = 0, wsides = 10\<rparr> (replay [5] 1)
   = Some (Inr \<lparr>code = ''1A10K0'', result = 0, detail = ''1A10K0=[{5}]=0'', wcount = 1,
                wadd_line = 10, success_line = 0, success_line_max = 0, wsides = 10\<rparr>,
           (replay [5] 1)\<lparr>consumed := 1\<rparr>)"
proof -
  have i1: "WODDice_init default_config ''1A10K1'' =
    Inr \<lparr>code = ''1A10K1'', result = 0, detail = [], wcount = 1, wadd_line = 10,
         success_line = 1, success_line_max = 0, wsides = 10\<rparr>"
    by (simp add: wod_parse_eval)
  have i0: "WODDice_init default_config ''1A10K0'' =
    Inr \<lparr>code = ''1A10K0'', result = 0, detail = [], wcount = 1, wadd_line = 10,
         success_line = 0, success_line_max = 0, wsides = 10\<rparr>"
    by (simp add: wod_parse_eval)
  have r1: "WODDice_roll default_config
     \<lparr>code = ''1A10K1'', result = 0, detail = [], wcount = 1, wadd_line = 10,
         success_line = 1, success_line_max = 0, wsides = 10\<rparr> (replay [5] 1)
   = Some (Inr \<lparr>code = ''1A10K1'', result = 1, detail = ''1A10K1=[{5*}]=1'', wcount = 1,
                wadd_line = 10, success_line = 1, success_line_max = 0, wsides = 10\<rparr>,
           (replay [5] 1)\<lparr>consumed := 1\<rparr>)"
    unfolding WODDice_roll_def
    apply (subst WOD_loop.simps)
    apply (simp add: wod_roll_eval)
    apply (subst WOD_loop.simps)
    apply (simp add: wod_roll_eval)
    done
  have r0: "WODDice_roll default_config
     \<lparr>code = ''1A10K0'', result = 0, detail = [], wcount = 1, wadd_line = 10,
         success_line = 0, success_line_max = 0, wsides = 10\<rparr> (replay [5] 1)
   = Some (Inr \<lparr>code = ''1A10K0'', result = 0, detail = ''1A10K0=[{5}]=0'', wcount = 1,
                wadd_line = 10, success_line = 0, success_line_max = 0, wsides = 10\<rparr>,
           (replay [5] 1)\<lparr>consumed := 1\<rparr>)"
    unfolding WODDice_roll_def
    apply (subst WOD_loop.simps)
    apply (simp add: wod_roll_eval)
    apply (subst WOD_loop.simps)
    apply (simp add: wod_roll_eval)
    done
  show ?thesis using i1 r1 i0 r0 by blast
qed

subsection \<open>Claim C5: termination of the explosion loops\<close>

text \<open>
  C5 (as amended). The round-based explosion loop of an Exploding-Pool or Double-Cross
  roll ends, and \<^verbatim>\<open>roll\<close> returns or raises, when the draws of the source are, from
  some draw \<open>N\<close> on, all below the add line (for the Exploding Pool also when the add
  line is 0, which switches explosions off). The loop has no bound on the number of
  rounds: on a source that keeps handing out values at or above the add line it
  never ends.
\<close>

theorem explosion_loops_terminate:
  "((wadd_line w = 0 \<or> (\<forall>i\<ge>N. feed g i < wadd_line w)) \<longrightarrow>
      (\<exists>r. WODDice_roll cfg w g = Some r)) \<and>
   ((\<forall>i\<ge>N. feed g i < xadd_line x) \<longrightarrow> (\<exists>r. DXDice_roll cfg x g = Some r))"
proof (intro conjI impI)
  assume "wadd_line w = 0 \<or> (\<forall>i\<ge>N. feed g i < wadd_line w)"
  from WOD_loop_terminates [OF this]
  obtain q where "WOD_loop cfg w (wcount w) 0 ''=['' g = Some q" by blast
  then show "\<exists>r. WODDice_roll cfg w g = Some r"
    unfolding WODDice_roll_def by (auto simp: Let_def split: prod.splits sum.splits)
next
  assume "\<forall>i\<ge>N. feed g i < xadd_line x"
  from DX_loop_terminates [OF this]
  obtain q where "DX_loop cfg x (xcount x) 0 None ''=['' g = Some q" by blast
  then show "\<exists>r. DXDice_roll cfg x g = Some r"
    unfolding DXDice_roll_def by (auto simp: Let_def split: prod.splits sum.splits)
qed

text \<open>
  The notations \<open>1A10\<close> and \<open>1C10\<close> on a source that hands out 10 and then 3: every
  draw after the first is below the add line 10, and both rolls end.
\<close>

theorem explosion_loops_terminate_witness:
  "(\<exists>r. WODDice_roll default_config
          \<lparr>code = ''1A10'', result = 0, detail = [], wcount = 1, wadd_line = 10,
           success_line = 8, success_line_max = 0, wsides = 10\<rparr> (replay [10] 3) = Some r) \<and>
   (\<exists>r. DXDice_roll default_config
          \<lparr>code = ''1C10'', result = 0, detail = [], xcount = 1, xadd_line = 10, xsides = 10\<rparr>
          (replay [10] 3) = Some r)"
proof -
  let ?w = "\<lparr>code = ''1A10'', result = 0, detail = [], wcount = 1, wadd_line = 10,
           success_line = 8, success_line_max = 0, wsides = 10\<rparr>"
  let ?x = "\<lparr>code = ''1C10'', result = 0, detail = [], xcount = 1, xadd_line = 10, xsides = 10\<rparr>"
  let ?g = "replay [10] 3"
  have 1: "wadd_line ?w = 0 \<or> (\<forall>i\<ge>1. feed ?g i < wadd_line ?w)"
    by (simp add: replay_def)
  have 2: "\<forall>i\<ge>1. feed ?g i < xadd_line ?x"
    by (simp add: replay_def)
  from explosion_loops_terminate [of ?w 1 ?g default_config ?x] 1 2 show ?thesis by blast
qed

text \<open>
  C5 as stated fails: \<open>1C10\<close> is a validated Double-Cross notation, the source that
  always hands out 10 respects the contract \<open>[1, 10]\<close>, every die explodes in every
  round, and \<^verbatim>\<open>while dice_count:\<close> never ends.
\<close>

theorem DXDice_roll_diverges_counterexample:
  "DXDice_init default_config ''1C10''
     = Inr \<lparr>code = ''1C10'', result = 0, detail = [], xcount = 1, xadd_line = 10, xsides = 10\<rparr> \<and>
   DXDice_roll default_config
     \<lparr>code = ''1C10'', result = 0, detail = [], xcount = 1, xadd_line = 10, xsides = 10\<rparr>
     (replay [] 10) = None"
proof -
  let ?x = "\<lparr>code = ''1C10'', result = 0, detail = [], xcount = 1, xadd_line = 10, xsides = 10\<rparr>"
  have i: "DXDice_init default_config ''1C10'' = Inr ?x"
    by (simp add: dx_parse_eval)
  have f: "feed (replay [] 10) i = 10" for i by (simp add: replay_def)
  have "DX_loop default_config ?x (xcount ?x) 0 None ''=['' (replay [] 10) = None"
  proof (rule DX_loop_diverges)
    fix i
    show "xadd_line ?x \<le> feed (replay [] 10) i" unfolding f by simp
    show "\<exists>s. fmt_num default_config (feed (replay [] 10) i) False = Inr s"
      unfolding f by (simp add: fmt_num_def default_config_def)
  next
    show "0 < xcount ?x" by simp
  qed
  then have "DXDice_roll default_config ?x (replay [] 10) = None"
    unfolding DXDice_roll_def by simp
  with i show ?thesis by simp
qed

subsection \<open>Claim C4: the result of a Double-Cross roll\<close>

text \<open>
  C4 (as amended). For a Double-Cross roll with at least one die that returns, on a
  source whose draws lie in \<open>[1, sides]\<close>: there is at least one round, the result is
  \<open>(number of rounds - 1) * sides + max (draws of the final round)\<close>, and it lies in
  \<open>[(rounds - 1) * sides + 1, rounds * sides]\<close>. So the result is at least 1, and at
  least \<open>sides\<close> when there is more than one round.
\<close>

theorem DXDice_roll_result:
  assumes cnt: "1 \<le> xcount x"
    and contract: "\<forall>i. 1 \<le> feed g i \<and> feed g i \<le> xsides x"
    and run: "DXDice_roll cfg x g = Some (Inr x', g')"
  shows "\<exists>fuel k rs. DX_rounds fuel x (nat (xcount x)) g = Some (k, rs) \<and> 1 \<le> k \<and>
           result x' = (int k - 1) * xsides x + Max (set rs) \<and>
           (int k - 1) * xsides x + 1 \<le> result x' \<and> result x' \<le> int k * xsides x \<and>
           1 \<le> result x' \<and> (2 \<le> k \<longrightarrow> xsides x \<le> result x')"
proof -
  from run obtain q where q: "DX_loop cfg x (xcount x) 0 None ''=['' g = Some q"
    unfolding DXDice_roll_def by (cases "DX_loop cfg x (xcount x) 0 None ''=['' g") simp_all
  obtain a h where qa: "q = (a, h)" by (cases q)
  from run q qa obtain t where a: "a = Inr t"
    unfolding DXDice_roll_def by (cases a) simp_all
  obtain k' l' ob where t: "t = (k', l', ob)" by (cases t)
  have loop: "DX_loop cfg x (xcount x) 0 None ''=['' g = Some (Inr (k', l', ob), h)"
    using q qa a t by simp
  from DX_loop_rounds [OF loop] cnt obtain fuel k rs
    where d: "DX_rounds fuel x (nat (xcount x)) g = Some (k, rs)"
      and k': "k' = int k" and l': "l' = Some rs" by auto
  from DX_rounds_props [OF d] cnt
  have k: "1 \<le> k" and ne: "rs \<noteq> []" and vals: "\<forall>v\<in>set rs. \<exists>i. v = feed g i" by simp_all
  have mx: "py_max rs = Inr (Max (set rs))" using ne by (rule py_max_eq)
  have res: "result x' = (int k - 1) * xsides x + Max (set rs)"
    using run unfolding DXDice_roll_def loop k' l'
    by (auto simp: Let_def mx ebind_eq_Inr)
  have "Max (set rs) \<in> set rs" using ne by simp
  with vals contract have m: "1 \<le> Max (set rs)" "Max (set rs) \<le> xsides x" by auto
  then have s: "1 \<le> xsides x" by linarith
  have nn: "0 \<le> (int k - 1) * xsides x" using k s by simp
  have up: "int k * xsides x = (int k - 1) * xsides x + xsides x" by (simp add: algebra_simps)
  have two: "xsides x \<le> (int k - 1) * xsides x" if "2 \<le> k"
  proof -
    have "1 * xsides x \<le> (int k - 1) * xsides x"
      by (rule mult_right_mono) (use that s in simp_all)
    then show ?thesis by simp
  qed
  have "(int k - 1) * xsides x + 1 \<le> result x'" using res m by simp
  moreover have "result x' \<le> int k * xsides x" using res m up by simp
  moreover have "1 \<le> result x'" using res m nn by linarith
  moreover have "2 \<le> k \<longrightarrow> xsides x \<le> result x'"
  proof
    assume "2 \<le> k"
    then have "xsides x \<le> (int k - 1) * xsides x" by (rule two)
    then show "xsides x \<le> result x'" using res m by linarith
  qed
  ultimately show ?thesis using d k res by blast
qed

text \<open>
  The notation \<open>1C10\<close> with the draws 10 and 3: two rounds, the final round is the draw
  3, and the result is \<open>(2 - 1) * 10 + 3 = 13\<close>.
\<close>

theorem DXDice_roll_result_witness:
  "DXDice_roll default_config
     \<lparr>code = ''1C10'', result = 0, detail = [], xcount = 1, xadd_line = 10, xsides = 10\<rparr>
     (replay [10, 3] 1)
   = Some (Inr \<lparr>code = ''1C10'', result = 13, detail = ''1C10=[{<10>}, {3}]=13'',
                xcount = 1, xadd_line = 10, xsides = 10\<rparr>,
           (replay [10, 3] 1)\<lparr>consumed := 2\<rparr>) \<and>
   (\<exists>fuel k rs. DX_rounds fuel
        \<lparr>code = ''1C10'', result = 0, detail = [], xcount = 1, xadd_line = 10, xsides = 10\<rparr>
        1 (replay [10, 3] 1) = Some (k, rs) \<and> 1 \<le> k \<and> 13 = (int k - 1) * 10 + Max (set rs))"
proof -
  let ?x = "\<lparr>code = ''1C10'', result = 0, detail = [], xcount = 1, xadd_line = 10, xsides = 10\<rparr>"
  let ?x' = "\<lparr>code = ''1C10'', result = 13, detail = ''1C10=[{<10>}, {3}]=13'',
                xcount = 1, xadd_line = 10, xsides = 10\<rparr>"
  let ?g = "replay [10, 3] 1"
  have cnt: "1 \<le> xcount ?x" by simp
  have contract: "\<forall>i. 1 \<le> feed ?g i \<and> feed ?g i \<le> xsides ?x"
    by (auto simp: replay_def less_Suc_eq)
  have run: "DXDice_roll default_config ?x ?g = Some (Inr ?x', ?g\<lparr>consumed := 2\<rparr>)"
    unfolding DXDice_roll_def
    apply (subst DX_loop.simps)
    apply (simp add: dx_roll_eval)
    apply (subst DX_loop.simps)
    apply (simp add: dx_roll_eval)
    apply (subst DX_loop.simps)
    apply (simp add: dx_roll_eval)
    done
  from DXDice_roll_result [OF cnt contract run]
  obtain fuel k rs where "DX_rounds fuel ?x (nat (xcount ?x)) ?g = Some (k, rs)" "1 \<le> k"
    "result ?x' = (int k - 1) * xsides ?x + Max (set rs)" by blast
  then have "DX_rounds fuel ?x 1 ?g = Some (k, rs) \<and> 1 \<le> k \<and> 13 = (int k - 1) * 10 + Max (set rs)"
    by simp
  with run show ?thesis by blast
qed

text \<open>
  C4 as stated fails in its bound: \<open>1C10\<close> with the draw 3 ends after one round with
  the result \<open>(1 - 1) * 10 + 3 = 3\<close>, which is below the 10 sides.
\<close>

theorem DXDice_roll_below_sides_counterexample:
  "DXDice_init default_config ''1C10''
     = Inr \<lparr>code = ''1C10'', result = 0, detail = [], xcount = 1, xadd_line = 10, xsides = 10\<rparr> \<and>
   DXDice_roll default_config
     \<lparr>code = ''1C10'', result = 0, detail = [], xcount = 1, xadd_line = 10, xsides = 10\<rparr>
     (replay [3] 1)
   = Some (Inr \<lparr>code = ''1C10'', result = 3, detail = ''1C10=[{3}]=3'',
                xcount = 1, xadd_line = 10, xsides = 10\<rparr>,
           (replay [3] 1)\<lparr>consumed := 1\<rparr>) \<and>
   \<not> xsides \<lparr>code = ''1C10'', result = 3, detail = ''1C10=[{3}]=3'',
               xcount = 1, xadd_line = 10, xsides = 10\<rparr>
       \<le> result \<lparr>code = ''1C10'', result = 3, detail = ''1C10=[{3}]=3'',
                  xcount = 1, xadd_line = 10, xsides = 10\<rparr>"
proof -
  let ?x = "\<lparr>code = ''1C10'', result = 0, detail = [], xcount = 1, xadd_line = 10, xsides = 10\<rparr>"
  have i: "DXDice_init default_config ''1C10'' = Inr ?x"
    by (simp add: dx_parse_eval)
  have run: "DXDice_roll default_config ?x (replay [3] 1)
   = Some (Inr \<lparr>code = ''1C10'', result = 3, detail = ''1C10=[{3}]=3'',
                xcount = 1, xadd_line = 10, xsides = 10\<rparr>,
           (replay [3] 1)\<lparr>consumed := 1\<rparr>)"
    unfolding DXDice_roll_def
    apply (subst DX_loop.simps)
    apply (simp add: dx_roll_eval)
    apply (subst DX_loop.simps)
    apply (simp add: dx_roll_eval)
    done
  show ?thesis using i run by simp
qed

end
